theory Spec2Isabelle
  imports Complex_Main
begin

section \<open>Values, errors and console output\<close>

text \<open>
  Python values held in registers, operand slots and memory words are integers or
  \<open>None\<close>; they are modelled as \<open>int option\<close>. Every exception the source can raise is
  a value of \<open>error\<close>, and every \<open>print\<close> site is a constructor of \<open>msg\<close> carrying the
  values interpolated into the printed text.
\<close>

type_synonym val = "int option"

datatype error = ValueError | IndexError | TypeError | AttributeError

datatype opcode = ADD | SUB | MUL | DIV | LOAD | STORE

datatype msg =
    Warn_load_out_of_range int
  | Warn_store_out_of_range int
  | Warn_division_by_zero "nat option"
  | Error_parsing_line nat string

section \<open>utils/config.py\<close>

definition NUM_REGISTERS :: nat where "NUM_REGISTERS = 8"
definition NUM_ALU_UNITS :: nat where "NUM_ALU_UNITS = 2"
definition NUM_MUL_DIV_UNITS :: nat where "NUM_MUL_DIV_UNITS = 1"
definition NUM_LOAD_STORE_UNITS :: nat where "NUM_LOAD_STORE_UNITS = 1"
definition NUM_ALU_RS :: nat where "NUM_ALU_RS = 3"
definition NUM_MUL_DIV_RS :: nat where "NUM_MUL_DIV_RS = 2"
definition NUM_LOAD_BUFFER_ENTRIES :: nat where "NUM_LOAD_BUFFER_ENTRIES = 2"
definition NUM_STORE_BUFFER_ENTRIES :: nat where "NUM_STORE_BUFFER_ENTRIES = 2"
definition MEMORY_SIZE :: int where "MEMORY_SIZE = 1024"

fun LATENCIES :: "opcode \<Rightarrow> int" where
  "LATENCIES ADD = 2"
| "LATENCIES SUB = 2"
| "LATENCIES MUL = 10"
| "LATENCIES DIV = 20"
| "LATENCIES LOAD = 5"
| "LATENCIES STORE = 5"

section \<open>components/memory.py\<close>

text \<open>
  \<open>Memory.read\<close> and \<open>Memory.write\<close>. The comparison \<open>address < 0\<close> raises TypeError
  when the address is \<open>None\<close>; an index that passes the guard but lies beyond the list
  raises IndexError. The second component of the result is what was printed.
\<close>

fun Memory_read :: "val list \<Rightarrow> val \<Rightarrow> error + (val \<times> msg list)" where
  "Memory_read m None = Inl TypeError"
| "Memory_read m (Some a) =
     (if a < 0 \<or> a \<ge> MEMORY_SIZE then Inr (Some 0, [Warn_load_out_of_range a])
      else if nat a < length m then Inr (m ! nat a, [])
      else Inl IndexError)"

fun Memory_write :: "val list \<Rightarrow> val \<Rightarrow> val \<Rightarrow> error + (val list \<times> msg list)" where
  "Memory_write m None v = Inl TypeError"
| "Memory_write m (Some a) v =
     (if a < 0 \<or> a \<ge> MEMORY_SIZE then Inr (m, [Warn_store_out_of_range a])
      else if nat a < length m then Inr (m[nat a := v], [])
      else Inl IndexError)"

definition Memory_init :: "val list" where
  "Memory_init = replicate (nat MEMORY_SIZE) (Some 0)"

section \<open>Strings as Python sees them\<close>

text \<open>
  A character is a code point below 256. \<open>is_space\<close> is \<open>str.isspace\<close> on these code
  points, the white space of \<open>str.strip\<close> and \<open>str.split\<close>; \<open>is_ascii_space\<close> is the
  white space that \<open>int()\<close> skips around the digits of an ASCII string.
\<close>

definition is_space :: "char \<Rightarrow> bool" where
  "is_space c = (c \<in> set [CHR '' '', CHR 0x09, CHR 0x0A, CHR 0x0B, CHR 0x0C, CHR 0x0D,
                           CHR 0x1C, CHR 0x1D, CHR 0x1E, CHR 0x1F, CHR 0x85, CHR 0xA0])"

definition is_ascii_space :: "char \<Rightarrow> bool" where
  "is_ascii_space c = (c \<in> set [CHR '' '', CHR 0x09, CHR 0x0A, CHR 0x0B, CHR 0x0C, CHR 0x0D])"

definition is_ascii :: "string \<Rightarrow> bool" where
  "is_ascii s = list_all (\<lambda>c. (of_char c :: nat) < 128) s"

definition strip_with :: "(char \<Rightarrow> bool) \<Rightarrow> string \<Rightarrow> string" where
  "strip_with p s = rev (dropWhile p (rev (dropWhile p s)))"

definition digit_val :: "char \<Rightarrow> int option" where
  "digit_val c = map_of [(CHR ''0'', 0), (CHR ''1'', 1), (CHR ''2'', 2), (CHR ''3'', 3),
     (CHR ''4'', 4), (CHR ''5'', 5), (CHR ''6'', 6), (CHR ''7'', 7), (CHR ''8'', 8),
     (CHR ''9'', 9)] c"

definition strip :: "string \<Rightarrow> string" where
  "strip s = strip_with is_space s"

text \<open>
  The digits of a Python integer literal as \<open>int()\<close> accepts them: decimal digits, with
  single underscores allowed between two digits. \<open>acc\<close> is the value read so far and
  \<open>prev\<close> tells whether the previous character was a digit.
\<close>

fun py_digits :: "int \<Rightarrow> bool \<Rightarrow> string \<Rightarrow> int option" where
  "py_digits acc prev [] = (if prev then Some acc else None)"
| "py_digits acc prev (c # cs) =
     (if c = CHR ''_'' then (if prev then py_digits acc False cs else None)
      else case digit_val c of
             None \<Rightarrow> None
           | Some d \<Rightarrow> py_digits (10 * acc + d) True cs)"

text \<open>
  \<open>int(s)\<close> for a string. An ASCII string is stripped of ASCII white space only; a string
  with a character beyond ASCII has every white-space character turned into a blank
  first, so that all of them are stripped. More than 4300 digits are refused (the
  default limit of the interpreter).
\<close>

definition MAX_STR_DIGITS :: nat where "MAX_STR_DIGITS = 4300"

definition py_int :: "string \<Rightarrow> error + int" where
  "py_int s =
     (case (if is_ascii s then strip_with is_ascii_space s else strip_with is_space s) of
        [] \<Rightarrow> Inl ValueError
      | c # cs \<Rightarrow>
          (let (neg, ds) = (if c = CHR ''-'' then (True, cs)
                            else if c = CHR ''+'' then (False, cs) else (False, c # cs))
           in case ds of
                [] \<Rightarrow> Inl ValueError
              | d # _ \<Rightarrow>
                  (if d = CHR ''_'' then Inl ValueError
                   else case py_digits 0 False ds of
                          None \<Rightarrow> Inl ValueError
                        | Some n \<Rightarrow>
                            (if length (filter (\<lambda>x. x \<noteq> CHR ''_'') ds) > MAX_STR_DIGITS
                             then Inl ValueError
                             else Inr (if neg then - n else n)))))"

section \<open>components/register_file.py\<close>

fun get_register_index :: "string option \<Rightarrow> error + nat" where
  "get_register_index None = Inl AttributeError"
| "get_register_index (Some reg_name) =
     (if take 1 reg_name \<noteq> ''R'' then Inl ValueError
      else case py_int (drop 1 reg_name) of
             Inl e \<Rightarrow> Inl e
           | Inr index \<Rightarrow>
               (if index < 0 \<or> index \<ge> int NUM_REGISTERS then Inl ValueError
                else Inr (nat index)))"

record RegisterFile =
  registers :: "val list"
  status :: "string option list"

definition RegisterFile_read :: "RegisterFile \<Rightarrow> string option \<Rightarrow> error + val" where
  "RegisterFile_read rf reg_name =
     (case get_register_index reg_name of
        Inl e \<Rightarrow> Inl e
      | Inr index \<Rightarrow>
          (if index < length (registers rf) then Inr (registers rf ! index)
           else Inl IndexError))"

definition RegisterFile_write :: "RegisterFile \<Rightarrow> string option \<Rightarrow> val \<Rightarrow> error + RegisterFile" where
  "RegisterFile_write rf reg_name v =
     (case get_register_index reg_name of
        Inl e \<Rightarrow> Inl e
      | Inr index \<Rightarrow>
          (if index < length (registers rf)
           then Inr (rf\<lparr>registers := (registers rf)[index := v]\<rparr>)
           else Inl IndexError))"

definition get_status :: "RegisterFile \<Rightarrow> string option \<Rightarrow> error + string option" where
  "get_status rf reg_name =
     (case get_register_index reg_name of
        Inl e \<Rightarrow> Inl e
      | Inr index \<Rightarrow>
          (if index < length (status rf) then Inr (status rf ! index)
           else Inl IndexError))"

definition set_status :: "RegisterFile \<Rightarrow> string option \<Rightarrow> string option \<Rightarrow> error + RegisterFile" where
  "set_status rf reg_name reservation_station =
     (case get_register_index reg_name of
        Inl e \<Rightarrow> Inl e
      | Inr index \<Rightarrow>
          (if index < length (status rf)
           then Inr (rf\<lparr>status := (status rf)[index := reservation_station]\<rparr>)
           else Inl IndexError))"

text \<open>
  \<open>RegisterFile.__init__\<close>: R0 is 0 and R1..R7 are drawn at random; the drawn values are
  the parameter \<open>rs\<close> (the list of registers 1 to 7).
\<close>

definition RegisterFile_init :: "int list \<Rightarrow> RegisterFile" where
  "RegisterFile_init rs =
     \<lparr>registers = Some 0 # map Some rs, status = replicate NUM_REGISTERS None\<rparr>"

section \<open>components/instruction.py\<close>

text \<open>
  An \<open>Instruction\<close> object. The simulator refers to an instruction by its position in
  the program list: the parser builds one fresh object per line, so position and object
  identity coincide.
\<close>

record Instruction =
  op :: opcode
  dest :: "string option"
  src1 :: "string option"
  src2 :: "string option"
  offset :: "int option"
  base :: "string option"
  issue_cycle :: "nat option"
  start_cycle :: "nat option"
  execute_complete_cycle :: "nat option"
  write_result_cycle :: "nat option"

definition Instruction_init ::
  "opcode \<Rightarrow> string option \<Rightarrow> string option \<Rightarrow> string option \<Rightarrow> int option \<Rightarrow> string option
     \<Rightarrow> Instruction" where
  "Instruction_init o' d s1 s2 off b =
     \<lparr>op = o', dest = d, src1 = s1, src2 = s2, offset = off, base = b,
      issue_cycle = None, start_cycle = None, execute_complete_cycle = None,
      write_result_cycle = None\<rparr>"

section \<open>components/reservation_station.py\<close>

text \<open>
  The field \<open>functional_unit\<close> of the source is never assigned anything but \<open>None\<close> and
  is left out. \<open>instruction\<close> is the position of the instruction in the program.
\<close>

record ReservationStation =
  name :: string
  op_rs :: "opcode option"
  vj :: val
  vk :: val
  qj :: "string option"
  qk :: "string option"
  busy :: bool
  dest_rs :: "string option"
  instruction :: "nat option"
  offset_rs :: "int option"
  address :: val
  executing :: bool
  execution_cycles_left :: int

definition ReservationStation_init :: "string \<Rightarrow> ReservationStation" where
  "ReservationStation_init n =
     \<lparr>name = n, op_rs = None, vj = None, vk = None, qj = None, qk = None, busy = False,
      dest_rs = None, instruction = None, offset_rs = None, address = None,
      executing = False, execution_cycles_left = 0\<rparr>"

definition isReady :: "ReservationStation \<Rightarrow> bool" where
  "isReady rs = (busy rs \<and> \<not> executing rs \<and> qj rs = None \<and> qk rs = None)"

definition clear :: "ReservationStation \<Rightarrow> ReservationStation" where
  "clear rs = rs\<lparr>busy := False, op_rs := None, vj := None, vk := None, qj := None,
     qk := None, dest_rs := None, instruction := None, address := None,
     executing := False, execution_cycles_left := 0\<rparr>"

text \<open>
  \<open>ReservationStations\<close>: \<open>all_stations\<close> is the list of station records; the four pools
  are the positions of their stations in \<open>all_stations\<close>, in declaration order.
\<close>

definition ReservationStations_init :: "ReservationStation list" where
  "ReservationStations_init = map ReservationStation_init
     [''ALU1'', ''ALU2'', ''ALU3'', ''MUL1'', ''MUL2'', ''LOAD1'', ''LOAD2'',
      ''STORE1'', ''STORE2'']"

definition alu_stations :: "nat list" where
  "alu_stations = [0 ..< NUM_ALU_RS]"

definition mul_div_stations :: "nat list" where
  "mul_div_stations = [NUM_ALU_RS ..< NUM_ALU_RS + NUM_MUL_DIV_RS]"

definition load_buffers :: "nat list" where
  "load_buffers = [NUM_ALU_RS + NUM_MUL_DIV_RS ..<
                   NUM_ALU_RS + NUM_MUL_DIV_RS + NUM_LOAD_BUFFER_ENTRIES]"

definition store_buffers :: "nat list" where
  "store_buffers = [NUM_ALU_RS + NUM_MUL_DIV_RS + NUM_LOAD_BUFFER_ENTRIES ..<
     NUM_ALU_RS + NUM_MUL_DIV_RS + NUM_LOAD_BUFFER_ENTRIES + NUM_STORE_BUFFER_ENTRIES]"

fun first_free :: "ReservationStation list \<Rightarrow> nat list \<Rightarrow> nat option" where
  "first_free sts [] = None"
| "first_free sts (i # is) = (if \<not> busy (sts ! i) then Some i else first_free sts is)"

fun get_available_station :: "ReservationStation list \<Rightarrow> opcode \<Rightarrow> nat option" where
  "get_available_station sts ADD = first_free sts alu_stations"
| "get_available_station sts SUB = first_free sts alu_stations"
| "get_available_station sts MUL = first_free sts mul_div_stations"
| "get_available_station sts DIV = first_free sts mul_div_stations"
| "get_available_station sts LOAD = first_free sts load_buffers"
| "get_available_station sts STORE = first_free sts store_buffers"

fun station_index :: "ReservationStation list \<Rightarrow> string \<Rightarrow> nat \<Rightarrow> nat option" where
  "station_index [] n i = None"
| "station_index (st # sts) n i = (if name st = n then Some i else station_index sts n (Suc i))"

definition get_station_by_name :: "ReservationStation list \<Rightarrow> string \<Rightarrow> nat option" where
  "get_station_by_name sts n = station_index sts n 0"

definition update_station_from_cdb :: "string \<Rightarrow> val \<Rightarrow> ReservationStation \<Rightarrow> ReservationStation" where
  "update_station_from_cdb cdb_name cdb_value station =
     (let st1 = (if qj station = Some cdb_name then station\<lparr>qj := None, vj := cdb_value\<rparr>
                 else station)
      in if qk st1 = Some cdb_name then st1\<lparr>qk := None, vk := cdb_value\<rparr> else st1)"

definition update_from_cdb :: "ReservationStation list \<Rightarrow> string \<Rightarrow> val \<Rightarrow> ReservationStation list" where
  "update_from_cdb sts cdb_name cdb_value = map (update_station_from_cdb cdb_name cdb_value) sts"

section \<open>components/common_data_bus.py\<close>

record CommonDataBus =
  cdb_reservation_station :: "string option"
  cdb_value :: val
  cdb_busy :: "bool option"

definition CommonDataBus_clear :: CommonDataBus where
  "CommonDataBus_clear = \<lparr>cdb_reservation_station = None, cdb_value = None, cdb_busy = None\<rparr>"

definition broadcast :: "CommonDataBus \<Rightarrow> string \<Rightarrow> val \<Rightarrow> CommonDataBus \<times> bool" where
  "broadcast c reservation_station v =
     (if cdb_busy c = Some True then (c, False)
      else (\<lparr>cdb_reservation_station = Some reservation_station, cdb_value = v,
             cdb_busy = Some True\<rparr>, True))"

section \<open>utils/metrics.py\<close>

record Metrics =
  total_cycles :: nat
  total_instrcutions :: nat
  completed_instructions :: nat
  rs_busy_cycles :: nat
  total_rs_cycles :: nat
  ls_buffer_busy_cycles :: nat
  total_ls_buffer_cycles :: nat
  structural_hazard_stalls :: nat

definition Metrics_init :: Metrics where
  "Metrics_init = \<lparr>total_cycles = 0, total_instrcutions = 0, completed_instructions = 0,
     rs_busy_cycles = 0, total_rs_cycles = 0, ls_buffer_busy_cycles = 0,
     total_ls_buffer_cycles = 0, structural_hazard_stalls = 0\<rparr>"

definition count_busy :: "ReservationStation list \<Rightarrow> nat list \<Rightarrow> nat" where
  "count_busy sts idx = length (filter (\<lambda>i. busy (sts ! i)) idx)"

definition update_rs_occupancy :: "Metrics \<Rightarrow> ReservationStation list \<Rightarrow> Metrics" where
  "update_rs_occupancy m sts =
     m\<lparr>rs_busy_cycles := rs_busy_cycles m + count_busy sts (alu_stations @ mul_div_stations),
       total_rs_cycles := total_rs_cycles m + (length alu_stations + length mul_div_stations)\<rparr>"

definition update_ls_buffer_utilization :: "Metrics \<Rightarrow> ReservationStation list \<Rightarrow> Metrics" where
  "update_ls_buffer_utilization m sts =
     m\<lparr>ls_buffer_busy_cycles := ls_buffer_busy_cycles m + count_busy sts (load_buffers @ store_buffers),
       total_ls_buffer_cycles := total_ls_buffer_cycles m + (length load_buffers + length store_buffers)\<rparr>"

definition increment_structural_hazard_stalls :: "Metrics \<Rightarrow> Metrics" where
  "increment_structural_hazard_stalls m = m\<lparr>structural_hazard_stalls := structural_hazard_stalls m + 1\<rparr>"

text \<open>
  The instructions-per-cycle figure computed by \<open>Metrics.report\<close>, as the exact quotient
  (the source divides two integers and prints the float with two decimals).
\<close>

definition ipc :: "Metrics \<Rightarrow> real" where
  "ipc m = (if total_cycles m > 0
            then real (completed_instructions m) / real (total_cycles m) else 0)"

section \<open>The simulator state\<close>

datatype fu_class = ALU | MulDiv | LoadStore

text \<open>
  A functional unit. \<open>reservation_station\<close> is the position in \<open>all_stations\<close> of the
  station the unit is bound to (an object reference in the source).
\<close>

record FunctionalUnit =
  name_fu :: string
  fu_cls :: fu_class
  supported_ops :: "opcode list"
  busy_fu :: bool
  reservation_station :: "nat option"
  cycles_left :: int

definition FunctionalUnit_init :: "string \<Rightarrow> fu_class \<Rightarrow> opcode list \<Rightarrow> FunctionalUnit" where
  "FunctionalUnit_init n c ops =
     \<lparr>name_fu = n, fu_cls = c, supported_ops = ops, busy_fu = False,
      reservation_station = None, cycles_left = 0\<rparr>"

definition FunctionalUnits_init :: "FunctionalUnit list" where
  "FunctionalUnits_init =
     [FunctionalUnit_init ''ALU1'' ALU [ADD, SUB],
      FunctionalUnit_init ''ALU2'' ALU [ADD, SUB],
      FunctionalUnit_init ''MULDIV1'' MulDiv [MUL, DIV],
      FunctionalUnit_init ''LOADSTORE1'' LoadStore [LOAD, STORE]]"

text \<open>
  The \<open>Simulator\<close> object with every component it owns. \<open>functional_units\<close> is
  \<open>FunctionalUnits.all_units\<close>, \<open>reservation_stations\<close> is
  \<open>ReservationStations.all_stations\<close>, \<open>stdout\<close> collects what was printed.
\<close>

record Simulator =
  memory :: "val list"
  register_file :: RegisterFile
  functional_units :: "FunctionalUnit list"
  reservation_stations :: "ReservationStation list"
  cdb :: CommonDataBus
  metrics :: Metrics
  instructions :: "Instruction list"
  pc :: nat
  cycle :: nat
  stdout :: "msg list"

text \<open>
  \<open>Simulator.__init__\<close> followed by \<open>load_trace\<close>, with the parsed instruction list and
  the random register values as parameters.
\<close>

definition Simulator_init :: "int list \<Rightarrow> Instruction list \<Rightarrow> Simulator" where
  "Simulator_init rs prog =
     \<lparr>memory = Memory_init, register_file = RegisterFile_init rs,
      functional_units = FunctionalUnits_init,
      reservation_stations = ReservationStations_init,
      cdb = CommonDataBus_clear,
      metrics = Metrics_init\<lparr>total_instrcutions := length prog\<rparr>,
      instructions = prog, pc = 0, cycle = 0, stdout = []\<rparr>"

section \<open>components/functional_unit.py\<close>

definition can_accept :: "FunctionalUnit \<Rightarrow> opcode option \<Rightarrow> bool" where
  "can_accept fu o' = (case o' of None \<Rightarrow> False
                       | Some x \<Rightarrow> x \<in> set (supported_ops fu) \<and> \<not> busy_fu fu)"

fun first_accepting :: "FunctionalUnit list \<Rightarrow> opcode option \<Rightarrow> nat \<Rightarrow> nat option" where
  "first_accepting [] o' i = None"
| "first_accepting (fu # fus) o' i =
     (if can_accept fu o' then Some i else first_accepting fus o' (Suc i))"

definition get_available :: "FunctionalUnit list \<Rightarrow> opcode option \<Rightarrow> nat option" where
  "get_available fus o' = first_accepting fus o' 0"

fun py_add :: "val \<Rightarrow> val \<Rightarrow> error + val" where
  "py_add (Some a) (Some b) = Inr (Some (a + b))"
| "py_add _ _ = Inl TypeError"

fun py_sub :: "val \<Rightarrow> val \<Rightarrow> error + val" where
  "py_sub (Some a) (Some b) = Inr (Some (a - b))"
| "py_sub _ _ = Inl TypeError"

fun py_mul :: "val \<Rightarrow> val \<Rightarrow> error + val" where
  "py_mul (Some a) (Some b) = Inr (Some (a * b))"
| "py_mul _ _ = Inl TypeError"

text \<open>Floor division; the caller has excluded a zero divisor.\<close>

fun py_floordiv :: "val \<Rightarrow> val \<Rightarrow> error + val" where
  "py_floordiv (Some a) (Some b) = Inr (Some (a div b))"
| "py_floordiv _ _ = Inl TypeError"

text \<open>
  \<open>compute_result\<close> of the three unit classes, on the station the unit is bound to.
  The result is the computed value, the memory afterwards and what was printed.
\<close>

fun compute_result ::
  "fu_class \<Rightarrow> ReservationStation \<Rightarrow> val list \<Rightarrow> error + (val \<times> val list \<times> msg list)" where
  "compute_result ALU rs m =
     (if op_rs rs = Some ADD then
        (case py_add (vj rs) (vk rs) of Inl e \<Rightarrow> Inl e | Inr v \<Rightarrow> Inr (v, m, []))
      else if op_rs rs = Some SUB then
        (case py_sub (vj rs) (vk rs) of Inl e \<Rightarrow> Inl e | Inr v \<Rightarrow> Inr (v, m, []))
      else Inl ValueError)"
| "compute_result MulDiv rs m =
     (if op_rs rs = Some MUL then
        (case py_mul (vj rs) (vk rs) of Inl e \<Rightarrow> Inl e | Inr v \<Rightarrow> Inr (v, m, []))
      else if op_rs rs = Some DIV then
        (if vk rs = Some 0 then Inr (Some 0, m, [Warn_division_by_zero (instruction rs)])
         else case py_floordiv (vj rs) (vk rs) of Inl e \<Rightarrow> Inl e | Inr v \<Rightarrow> Inr (v, m, []))
      else Inl ValueError)"
| "compute_result LoadStore rs m =
     (if op_rs rs = Some LOAD then
        (case Memory_read m (address rs) of Inl e \<Rightarrow> Inl e | Inr (v, w) \<Rightarrow> Inr (v, m, w))
      else if op_rs rs = Some STORE then
        (case Memory_write m (address rs) (vk rs) of
           Inl e \<Rightarrow> Inl e | Inr (m', w) \<Rightarrow> Inr (None, m', w))
      else Inl ValueError)"

text \<open>\<open>FunctionalUnit.start_execution\<close> of unit \<open>u\<close> on station \<open>r\<close>.\<close>

definition start_execution :: "nat \<Rightarrow> nat \<Rightarrow> opcode \<Rightarrow> Simulator \<Rightarrow> Simulator" where
  "start_execution u r o' s =
     (let fu = (functional_units s ! u)\<lparr>busy_fu := True, reservation_station := Some r,
                  cycles_left := LATENCIES o'\<rparr>;
          rs = (reservation_stations s ! r)\<lparr>executing := True,
                  execution_cycles_left := LATENCIES o'\<rparr>
      in s\<lparr>functional_units := (functional_units s)[u := fu],
           reservation_stations := (reservation_stations s)[r := rs]\<rparr>)"

text \<open>\<open>FunctionalUnit.tick\<close> of unit \<open>u\<close>: the new state and the completion, if any.\<close>

definition FunctionalUnit_tick :: "nat \<Rightarrow> Simulator \<Rightarrow> error + (Simulator \<times> (string \<times> val) option)" where
  "FunctionalUnit_tick u s =
     (let fu = functional_units s ! u in
      if \<not> busy_fu fu then Inr (s, None)
      else case reservation_station fu of
        None \<Rightarrow> Inl AttributeError
      | Some r \<Rightarrow>
          (let fu1 = fu\<lparr>cycles_left := cycles_left fu - 1\<rparr>;
               rs0 = reservation_stations s ! r;
               rs1 = rs0\<lparr>execution_cycles_left := execution_cycles_left rs0 - 1\<rparr>
           in if cycles_left fu1 > 0
              then Inr (s\<lparr>functional_units := (functional_units s)[u := fu1],
                         reservation_stations := (reservation_stations s)[r := rs1]\<rparr>, None)
              else case compute_result (fu_cls fu1) rs1 (memory s) of
                Inl e \<Rightarrow> Inl e
              | Inr (result, m', w) \<Rightarrow>
                  Inr (s\<lparr>memory := m',
                         functional_units := (functional_units s)
                            [u := fu1\<lparr>busy_fu := False, reservation_station := None\<rparr>],
                         reservation_stations := (reservation_stations s)
                            [r := rs1\<lparr>executing := False\<rparr>],
                         stdout := stdout s @ w\<rparr>,
                       Some (name rs1, result))))"

text \<open>\<open>FunctionalUnits.tick\<close>: every unit in order, collecting the completions.\<close>

fun units_tick :: "nat list \<Rightarrow> Simulator \<Rightarrow> error + (Simulator \<times> (string \<times> val) list)" where
  "units_tick [] s = Inr (s, [])"
| "units_tick (u # us) s =
     (case FunctionalUnit_tick u s of
        Inl e \<Rightarrow> Inl e
      | Inr (s1, result) \<Rightarrow>
          (case units_tick us s1 of
             Inl e \<Rightarrow> Inl e
           | Inr (s2, results) \<Rightarrow>
               Inr (s2, (case result of None \<Rightarrow> results | Some x \<Rightarrow> x # results))))"

definition FunctionalUnits_tick :: "Simulator \<Rightarrow> error + (Simulator \<times> (string \<times> val) list)" where
  "FunctionalUnits_tick s = units_tick [0 ..< length (functional_units s)] s"

section \<open>simulator.py\<close>

text \<open>
  Operand capture at issue, as written three times in \<open>Simulator.issue\<close>: a pending
  register gives its producer tag to the \<open>q\<close> slot and leaves the \<open>v\<close> slot alone; an
  available register clears the \<open>q\<close> slot and copies the value.
\<close>

definition capture_j :: "RegisterFile \<Rightarrow> string option \<Rightarrow> ReservationStation \<Rightarrow> error + ReservationStation" where
  "capture_j rf reg rs =
     (case get_status rf reg of
        Inl e \<Rightarrow> Inl e
      | Inr (Some tag) \<Rightarrow> Inr (rs\<lparr>qj := Some tag\<rparr>)
      | Inr None \<Rightarrow>
          (case RegisterFile_read rf reg of
             Inl e \<Rightarrow> Inl e
           | Inr v \<Rightarrow> Inr (rs\<lparr>qj := None, vj := v\<rparr>)))"

definition capture_k :: "RegisterFile \<Rightarrow> string option \<Rightarrow> ReservationStation \<Rightarrow> error + ReservationStation" where
  "capture_k rf reg rs =
     (case get_status rf reg of
        Inl e \<Rightarrow> Inl e
      | Inr (Some tag) \<Rightarrow> Inr (rs\<lparr>qk := Some tag\<rparr>)
      | Inr None \<Rightarrow>
          (case RegisterFile_read rf reg of
             Inl e \<Rightarrow> Inl e
           | Inr v \<Rightarrow> Inr (rs\<lparr>qk := None, vk := v\<rparr>)))"

text \<open>
  The \<open>if\<close>/\<open>elif\<close> chain of \<open>Simulator.issue\<close> on the opcode: the station filled in and
  the register file after the destination renaming.
\<close>

definition issue_operands ::
  "Instruction \<Rightarrow> RegisterFile \<Rightarrow> ReservationStation \<Rightarrow> error + (ReservationStation \<times> RegisterFile)" where
  "issue_operands i rf rs =
     (if op i \<in> {ADD, SUB, MUL, DIV} then
        (case capture_j rf (src1 i) (rs\<lparr>dest_rs := dest i\<rparr>) of
           Inl e \<Rightarrow> Inl e
         | Inr rs1 \<Rightarrow>
            (case capture_k rf (src2 i) rs1 of
               Inl e \<Rightarrow> Inl e
             | Inr rs2 \<Rightarrow>
                (case set_status rf (dest i) (Some (name rs2)) of
                   Inl e \<Rightarrow> Inl e
                 | Inr rf' \<Rightarrow> Inr (rs2, rf'))))
      else if op i = LOAD then
        (case capture_j rf (base i) (rs\<lparr>dest_rs := dest i\<rparr>) of
           Inl e \<Rightarrow> Inl e
         | Inr rs1 \<Rightarrow>
            (case set_status rf (dest i) (Some (name rs1)) of
               Inl e \<Rightarrow> Inl e
             | Inr rf' \<Rightarrow> Inr (rs1\<lparr>offset_rs := offset i\<rparr>, rf')))
      else if op i = STORE then
        (case capture_j rf (base i) rs of
           Inl e \<Rightarrow> Inl e
         | Inr rs1 \<Rightarrow>
            (case capture_k rf (src1 i) rs1 of
               Inl e \<Rightarrow> Inl e
             | Inr rs2 \<Rightarrow> Inr (rs2\<lparr>offset_rs := offset i\<rparr>, rf)))
      else Inr (rs, rf))"

definition issue :: "Simulator \<Rightarrow> error + (Simulator \<times> bool)" where
  "issue s =
     (if pc s \<ge> length (instructions s) then Inr (s, False)
      else
        (let i = instructions s ! pc s in
         case get_available_station (reservation_stations s) (op i) of
           None \<Rightarrow>
             Inr (s\<lparr>metrics := increment_structural_hazard_stalls (metrics s)\<rparr>, False)
         | Some r \<Rightarrow>
             (let rs = (reservation_stations s ! r)
                         \<lparr>busy := True, op_rs := Some (op i), instruction := Some (pc s)\<rparr>
              in case issue_operands i (register_file s) rs of
                   Inl e \<Rightarrow> Inl e
                 | Inr (rs', rf') \<Rightarrow>
                     Inr (s\<lparr>register_file := rf',
                            reservation_stations := (reservation_stations s)[r := rs'],
                            instructions := (instructions s)
                               [pc s := i\<lparr>issue_cycle := Some (cycle s)\<rparr>],
                            pc := pc s + 1\<rparr>, True))))"

text \<open>The body of the loop of \<open>Simulator.execute\<close> for the station at position \<open>r\<close>.\<close>

definition execute_station :: "nat \<Rightarrow> Simulator \<Rightarrow> error + Simulator" where
  "execute_station r s =
     (let rs = reservation_stations s ! r in
      if isReady rs \<and> \<not> executing rs then
        (case get_available (functional_units s) (op_rs rs) of
           None \<Rightarrow> Inr s
         | Some u \<Rightarrow>
            (case op_rs rs of
               None \<Rightarrow> Inr s
             | Some o' \<Rightarrow>
                (let s1 = start_execution u r o' s in
                 case instruction rs of
                   None \<Rightarrow> Inl AttributeError
                 | Some k \<Rightarrow>
                    (let s2 = s1\<lparr>instructions := (instructions s1)
                                 [k := (instructions s1 ! k)\<lparr>start_cycle := Some (cycle s)\<rparr>]\<rparr>
                     in if o' \<in> {LOAD, STORE} then
                          (case py_add (vj rs) (offset_rs rs) of
                             Inl e \<Rightarrow> Inl e
                           | Inr a \<Rightarrow>
                               Inr (s2\<lparr>reservation_stations := (reservation_stations s2)
                                      [r := (reservation_stations s2 ! r)\<lparr>address := a\<rparr>]\<rparr>))
                        else Inr s2))))
      else Inr s)"

fun execute_loop :: "nat list \<Rightarrow> Simulator \<Rightarrow> error + Simulator" where
  "execute_loop [] s = Inr s"
| "execute_loop (r # rs) s =
     (case execute_station r s of Inl e \<Rightarrow> Inl e | Inr s' \<Rightarrow> execute_loop rs s')"

definition execute :: "Simulator \<Rightarrow> error + Simulator" where
  "execute s = execute_loop [0 ..< length (reservation_stations s)] s"

text \<open>
  The body of \<open>if results:\<close> in \<open>Simulator.write_back\<close>, for the first completion
  \<open>(rs_name, result)\<close>.
\<close>

definition write_back_first :: "string \<Rightarrow> val \<Rightarrow> Simulator \<Rightarrow> error + Simulator" where
  "write_back_first rs_name result s =
     (let s1 = s\<lparr>cdb := fst (broadcast (cdb s) rs_name result)\<rparr> in
      case get_station_by_name (reservation_stations s1) rs_name of
        None \<Rightarrow> Inr s1
      | Some r \<Rightarrow>
         (let rs = reservation_stations s1 ! r in
          case instruction rs of
            None \<Rightarrow> Inl AttributeError
          | Some k \<Rightarrow>
             (let s2 = s1\<lparr>instructions := (instructions s1)
                          [k := (instructions s1 ! k)
                             \<lparr>execute_complete_cycle := Some (cycle s1),
                              write_result_cycle := Some (cycle s1)\<rparr>]\<rparr>
              in case
                   (if op_rs rs \<in> {Some ADD, Some SUB, Some MUL, Some DIV, Some LOAD} then
                      (case RegisterFile_write (register_file s2) (dest_rs rs) result of
                         Inl e \<Rightarrow> Inl e
                       | Inr rf1 \<Rightarrow>
                          (case get_status rf1 (dest_rs rs) of
                             Inl e \<Rightarrow> Inl e
                           | Inr st \<Rightarrow>
                              (if st = Some rs_name then set_status rf1 (dest_rs rs) None
                               else Inr rf1)))
                    else Inr (register_file s2))
                 of Inl e \<Rightarrow> Inl e
                  | Inr rf' \<Rightarrow>
                     (let sts = update_from_cdb (reservation_stations s2) rs_name result
                      in Inr (s2\<lparr>register_file := rf',
                                 reservation_stations := sts[r := clear (sts ! r)],
                                 metrics := (metrics s2)\<lparr>completed_instructions :=
                                    completed_instructions (metrics s2) + 1\<rparr>\<rparr>)))))"

definition write_back :: "Simulator \<Rightarrow> error + Simulator" where
  "write_back s =
     (case FunctionalUnits_tick (s\<lparr>cdb := CommonDataBus_clear\<rparr>) of
        Inl e \<Rightarrow> Inl e
      | Inr (s1, results) \<Rightarrow>
         (case results of
            [] \<Rightarrow> Inr s1
          | (rs_name, result) # _ \<Rightarrow> write_back_first rs_name result s1))"

definition tick :: "Simulator \<Rightarrow> error + (Simulator \<times> bool)" where
  "tick s =
     (let c = cycle s + 1;
          m = update_ls_buffer_utilization
                (update_rs_occupancy ((metrics s)\<lparr>total_cycles := c\<rparr>) (reservation_stations s))
                (reservation_stations s)
      in case write_back (s\<lparr>cycle := c, metrics := m\<rparr>) of
           Inl e \<Rightarrow> Inl e
         | Inr s1 \<Rightarrow>
            (case execute s1 of
               Inl e \<Rightarrow> Inl e
             | Inr s2 \<Rightarrow>
                (case issue s2 of
                   Inl e \<Rightarrow> Inl e
                 | Inr (s3, issued) \<Rightarrow>
                    Inr (s3, \<not> (\<not> issued \<and> pc s3 \<ge> length (instructions s3) \<and>
                                list_all (\<lambda>rs. \<not> busy rs) (reservation_stations s3))))))"

text \<open>
  \<open>Simulator.run\<close>: the loop \<open>while self.tick(): pass\<close>. The value is \<open>None\<close> when the
  loop never ends, the error when a tick raises, and otherwise the state from which the
  report is printed.
\<close>

partial_function (option) run :: "Simulator \<Rightarrow> (error + Simulator) option" where
  "run s =
     (case tick s of
        Inl e \<Rightarrow> Some (Inl e)
      | Inr (s', continue) \<Rightarrow> if continue then run s' else Some (Inr s'))"

text \<open>A fixed number of calls of \<open>tick\<close>, whatever each returns (as \<open>run_step\<close> drives it).\<close>

fun ticks :: "nat \<Rightarrow> Simulator \<Rightarrow> error + Simulator" where
  "ticks 0 s = Inr s"
| "ticks (Suc n) s = (case tick s of Inl e \<Rightarrow> Inl e | Inr (s', _) \<Rightarrow> ticks n s')"

section \<open>Running with a bound on the number of ticks\<close>

text \<open>
  \<open>run\<close> with fuel: \<open>None\<close> when the loop has not ended after \<open>n\<close> ticks. Whatever it
  returns, \<open>run\<close> returns (lemma \<open>run_n_run\<close>).
\<close>

fun run_n :: "nat \<Rightarrow> Simulator \<Rightarrow> (error + Simulator) option" where
  "run_n 0 s = None"
| "run_n (Suc n) s =
     (case tick s of
        Inl e \<Rightarrow> Some (Inl e)
      | Inr (s', continue) \<Rightarrow> if continue then run_n n s' else Some (Inr s'))"

section \<open>Traces used as examples\<close>

text \<open>\<open>ADD R4, R1, R2\<close>\<close>

definition prog_add :: "Instruction list" where
  "prog_add = [Instruction_init ADD (Some ''R4'') (Some ''R1'') (Some ''R2'') None None]"

text \<open>Three multiplications: \<open>MUL R4, R1, R2\<close>, \<open>MUL R5, R1, R2\<close>, \<open>MUL R6, R1, R2\<close>\<close>

definition prog_mul3 :: "Instruction list" where
  "prog_mul3 =
     [Instruction_init MUL (Some ''R4'') (Some ''R1'') (Some ''R2'') None None,
      Instruction_init MUL (Some ''R5'') (Some ''R1'') (Some ''R2'') None None,
      Instruction_init MUL (Some ''R6'') (Some ''R1'') (Some ''R2'') None None]"

text \<open>The register values of the end-to-end scenarios: R1 = 5, R2 = 7, R3 = 3, others 0.\<close>

definition regs0 :: "int list" where
  "regs0 = [5, 7, 3, 0, 0, 0, 0]"

section \<open>Vocabulary of the proofs\<close>

text \<open>
  A station without the two fields that a functional unit counts down and resets
  (\<open>executing\<close>, \<open>execution_cycles_left\<close>): what \<open>FunctionalUnits.tick\<close> leaves alone.
\<close>

definition core :: "ReservationStation \<Rightarrow> ReservationStation" where
  "core rs = rs\<lparr>executing := False, execution_cycles_left := 0\<rparr>"

text \<open>\<open>STORE 0(R0), R1\<close>\<close>

definition prog_store :: "Instruction list" where
  "prog_store = [Instruction_init STORE None (Some ''R1'') None (Some 0) (Some ''R0'')]"

text \<open>
  A store that completes in the same cycle as the third of three additions:
  \<open>STORE 2000(R0), R1\<close>, \<open>ADD R4, R1, R2\<close>, \<open>ADD R5, R1, R2\<close>, \<open>ADD R6, R1, R2\<close>.
  The address 2000 is out of range, so that each run of the store's \<open>compute_result\<close>
  prints a warning.
\<close>

definition prog_race :: "Instruction list" where
  "prog_race =
     [Instruction_init STORE None (Some ''R1'') None (Some 2000) (Some ''R0''),
      Instruction_init ADD (Some ''R4'') (Some ''R1'') (Some ''R2'') None None,
      Instruction_init ADD (Some ''R5'') (Some ''R1'') (Some ''R2'') None None,
      Instruction_init ADD (Some ''R6'') (Some ''R1'') (Some ''R2'') None None]"


section \<open>Instruction.parse and utils/parser.py\<close>

text \<open>
  The string methods used by the parser, on ASCII strings: \<open>str.split()\<close> (runs of
  white space separate the words), \<open>str.split(sep)\<close> for a one-character separator,
  \<open>str.upper()\<close>, \<open>' '.join\<close>, \<open>str.replace(' ', '')\<close> and \<open>str.rstrip(')')\<close>.
\<close>

fun split_ws_aux :: "string \<Rightarrow> string \<Rightarrow> string list" where
  "split_ws_aux cur [] = (if cur = [] then [] else [rev cur])"
| "split_ws_aux cur (c # cs) =
     (if is_space c then (if cur = [] then split_ws_aux [] cs else rev cur # split_ws_aux [] cs)
      else split_ws_aux (c # cur) cs)"

definition split_ws :: "string \<Rightarrow> string list" where
  "split_ws s = split_ws_aux [] s"

fun split_on :: "char \<Rightarrow> string \<Rightarrow> string list" where
  "split_on sep [] = [[]]"
| "split_on sep (c # cs) =
     (let r = split_on sep cs in if c = sep then [] # r else (c # hd r) # tl r)"

definition upper_char :: "char \<Rightarrow> char" where
  "upper_char c =
     (case map_of (zip ''abcdefghijklmnopqrstuvwxyz'' ''ABCDEFGHIJKLMNOPQRSTUVWXYZ'') c of
        None \<Rightarrow> c | Some C \<Rightarrow> C)"

definition upper :: "string \<Rightarrow> string" where
  "upper s = map upper_char s"

fun join_spaces :: "string list \<Rightarrow> string" where
  "join_spaces [] = []"
| "join_spaces [w] = w"
| "join_spaces (w # ws) = w @ '' '' @ join_spaces ws"

definition remove_spaces :: "string \<Rightarrow> string" where
  "remove_spaces s = filter (\<lambda>c. c \<noteq> CHR '' '') s"

definition rstrip_paren :: "string \<Rightarrow> string" where
  "rstrip_paren s = rev (dropWhile (\<lambda>c. c = CHR '')'') (rev s))"

text \<open>\<open>xs[i]\<close> for a non-negative literal index: IndexError beyond the end.\<close>

definition py_nth :: "'a list \<Rightarrow> nat \<Rightarrow> error + 'a" where
  "py_nth xs i = (if i < length xs then Inr (xs ! i) else Inl IndexError)"

definition parse_operands :: "string list \<Rightarrow> string list" where
  "parse_operands parts = split_on CHR '','' (remove_spaces (join_spaces (drop 1 parts)))"

text \<open>
  \<open>Instruction.parse\<close>. Each subscript and each \<open>int()\<close> is evaluated in the order of the
  source, so that the first failure decides which exception is raised.
\<close>

definition parse :: "string \<Rightarrow> error + Instruction" where
  "parse instruction_str =
     (let parts = split_ws (strip instruction_str) in
      case py_nth parts 0 of
        Inl e \<Rightarrow> Inl e
      | Inr p0 \<Rightarrow>
         (let opn = upper p0; operands = parse_operands parts in
          if opn \<in> {''ADD'', ''SUB'', ''MUL'', ''DIV''} then
            (case py_nth operands 0 of Inl e \<Rightarrow> Inl e | Inr d \<Rightarrow>
             case py_nth operands 1 of Inl e \<Rightarrow> Inl e | Inr s1 \<Rightarrow>
             case py_nth operands 2 of Inl e \<Rightarrow> Inl e | Inr s2 \<Rightarrow>
               Inr (Instruction_init
                      (if opn = ''ADD'' then ADD else if opn = ''SUB'' then SUB
                       else if opn = ''MUL'' then MUL else DIV)
                      (Some d) (Some s1) (Some s2) None None))
          else if opn = ''LOAD'' then
            (case py_nth operands 0 of Inl e \<Rightarrow> Inl e | Inr d \<Rightarrow>
             case py_nth operands 1 of Inl e \<Rightarrow> Inl e | Inr mem_ref \<Rightarrow>
             (let offset_base = split_on CHR ''('' mem_ref in
              case py_nth offset_base 0 of Inl e \<Rightarrow> Inl e | Inr off_str \<Rightarrow>
              case py_int off_str of Inl e \<Rightarrow> Inl e | Inr off \<Rightarrow>
              case py_nth offset_base 1 of Inl e \<Rightarrow> Inl e | Inr b \<Rightarrow>
                Inr (Instruction_init LOAD (Some d) None None (Some off)
                       (Some (rstrip_paren b)))))
          else if opn = ''STORE'' then
            (case py_nth operands 0 of Inl e \<Rightarrow> Inl e | Inr mem_ref \<Rightarrow>
             (let offset_base = split_on CHR ''('' mem_ref in
              case py_nth offset_base 0 of Inl e \<Rightarrow> Inl e | Inr off_str \<Rightarrow>
              case py_int off_str of Inl e \<Rightarrow> Inl e | Inr off \<Rightarrow>
              case py_nth offset_base 1 of Inl e \<Rightarrow> Inl e | Inr b \<Rightarrow>
              case py_nth operands 1 of Inl e \<Rightarrow> Inl e | Inr s1 \<Rightarrow>
                Inr (Instruction_init STORE None (Some s1) None (Some off)
                       (Some (rstrip_paren b)))))
          else Inl ValueError))"

text \<open>
  \<open>TraceParser.parse_file\<close> on the lines of the file, \<open>line_num\<close> being the number of the
  first of them. Only \<open>ValueError\<close> is caught; any other exception leaves the function.
  The result is the instruction list and what was printed.
\<close>

fun parse_lines :: "nat \<Rightarrow> string list \<Rightarrow> error + (Instruction list \<times> msg list)" where
  "parse_lines line_num [] = Inr ([], [])"
| "parse_lines line_num (l # ls) =
     (let line = strip l in
      if line = [] \<or> take 1 line = ''#'' then parse_lines (Suc line_num) ls
      else case parse line of
             Inl ValueError \<Rightarrow>
               (case parse_lines (Suc line_num) ls of
                  Inl e \<Rightarrow> Inl e
                | Inr (is, out) \<Rightarrow> Inr (is, Error_parsing_line line_num line # out))
           | Inl e \<Rightarrow> Inl e
           | Inr i \<Rightarrow>
               (case parse_lines (Suc line_num) ls of
                  Inl e \<Rightarrow> Inl e
                | Inr (is, out) \<Rightarrow> Inr (i # is, out)))"

definition parse_file :: "string list \<Rightarrow> error + (Instruction list \<times> msg list)" where
  "parse_file lines = parse_lines 1 lines"

text \<open>
  The names of the stations, in the order of \<open>all_stations\<close>, and the fields of a
  station that say which instruction it holds and what it will produce.
\<close>

definition station_names :: "string list" where
  "station_names = [''ALU1'', ''ALU2'', ''ALU3'', ''MUL1'', ''MUL2'', ''LOAD1'', ''LOAD2'',
     ''STORE1'', ''STORE2'']"

type_synonym ident = "string \<times> bool \<times> string option \<times> opcode option \<times> nat option"

definition ident :: "ReservationStation \<Rightarrow> ident" where
  "ident st = (name st, busy st, dest_rs st, op_rs st, instruction st)"

text \<open>
  \<open>produces x t r\<close>: the station with fields \<open>x\<close> is named \<open>t\<close>, is busy with an operation
  that writes a register, and its destination is register number \<open>r\<close>.
\<close>

definition produces :: "ident \<Rightarrow> string \<Rightarrow> nat \<Rightarrow> bool" where
  "produces x t r =
     (case x of (n, b, d, o', k) \<Rightarrow>
        n = t \<and> b \<and> get_register_index d = Inr r \<and>
        o' \<in> {Some ADD, Some SUB, Some MUL, Some DIV, Some LOAD})"

text \<open>Every tag in the status vector names a busy station that produces that register.\<close>

definition tag_inv :: "Simulator \<Rightarrow> bool" where
  "tag_inv s =
     (map name (reservation_stations s) = station_names \<and>
      length (status (register_file s)) = NUM_REGISTERS \<and>
      (\<forall>r < length (status (register_file s)). \<forall>t.
         status (register_file s) ! r = Some t \<longrightarrow>
         (\<exists>i < length (reservation_stations s).
            produces (ident (reservation_stations s ! i)) t r)))"

text \<open>The three timestamps of an instruction that issue and write-back set.\<close>

definition stamps :: "Instruction \<Rightarrow> nat option \<times> nat option \<times> nat option" where
  "stamps i = (issue_cycle i, execute_complete_cycle i, write_result_cycle i)"

text \<open>
  Claim C1 as it is stated: for each register, the status is not \<open>None\<close> exactly when
  one busy station has that register as its destination.
\<close>

definition status_iff_one_producer :: "Simulator \<Rightarrow> bool" where
  "status_iff_one_producer s =
     list_all (\<lambda>r. (status (register_file s) ! r \<noteq> None) =
                    (length (filter (\<lambda>st. busy st \<and> get_register_index (dest_rs st) = Inr r)
                               (reservation_stations s)) = 1))
       [0 ..< NUM_REGISTERS]"

text \<open>\<open>after n s P\<close>: \<open>n\<close> ticks from \<open>s\<close> raise nothing and \<open>P\<close> holds of the state reached.\<close>

definition after :: "nat \<Rightarrow> Simulator \<Rightarrow> (Simulator \<Rightarrow> bool) \<Rightarrow> bool" where
  "after n s P = (case ticks n s of Inr s' \<Rightarrow> P s' | Inl e \<Rightarrow> False)"

text \<open>Two additions into the same register: \<open>ADD R1, R2, R3\<close>, \<open>ADD R1, R2, R3\<close>\<close>

definition prog_waw :: "Instruction list" where
  "prog_waw =
     [Instruction_init ADD (Some ''R1'') (Some ''R2'') (Some ''R3'') None None,
      Instruction_init ADD (Some ''R1'') (Some ''R2'') (Some ''R3'') None None]"

text \<open>
  The bookkeeping behind the timestamps: instructions not yet issued carry none of the
  three stamps; an instruction held by a station has been issued and has not completed;
  no two stations hold the same instruction.
\<close>

definition stamp_inv :: "Simulator \<Rightarrow> bool" where
  "stamp_inv s =
     (pc s \<le> length (instructions s) \<and>
      (\<forall>k. pc s \<le> k \<and> k < length (instructions s) \<longrightarrow>
           stamps (instructions s ! k) = (None, None, None)) \<and>
      (\<forall>i < length (reservation_stations s). \<forall>k.
           instruction (reservation_stations s ! i) = Some k \<longrightarrow>
           k < pc s \<and> snd (stamps (instructions s ! k)) = (None, None)) \<and>
      (\<forall>i < length (reservation_stations s). \<forall>j < length (reservation_stations s). \<forall>k.
           instruction (reservation_stations s ! i) = Some k \<and>
           instruction (reservation_stations s ! j) = Some k \<longrightarrow> i = j))"

text \<open>\<open>kept a b\<close>: a stamp that was set before is the same afterwards.\<close>

definition kept :: "nat option \<Rightarrow> nat option \<Rightarrow> bool" where
  "kept a b = (a = None \<or> b = a)"

definition stamps_kept :: "Instruction list \<Rightarrow> Instruction list \<Rightarrow> bool" where
  "stamps_kept is is' =
     (length is' = length is \<and>
      (\<forall>k < length is.
         kept (issue_cycle (is ! k)) (issue_cycle (is' ! k)) \<and>
         kept (execute_complete_cycle (is ! k)) (execute_complete_cycle (is' ! k)) \<and>
         kept (write_result_cycle (is ! k)) (write_result_cycle (is' ! k))))"

text \<open>An instruction as \<open>Instruction.__init__\<close> leaves it: no timestamp set.\<close>

definition fresh :: "Instruction \<Rightarrow> bool" where
  "fresh i = (issue_cycle i = None \<and> start_cycle i = None \<and>
              execute_complete_cycle i = None \<and> write_result_cycle i = None)"


text \<open>
  How units and stations are tied: a busy unit is bound to a station that is busy,
  executing and has both operands; no two busy units are bound to the same station.
\<close>

definition bound_ok :: "FunctionalUnit \<Rightarrow> ReservationStation list \<Rightarrow> bool" where
  "bound_ok fu sts =
     (\<not> busy_fu fu \<or>
      (\<exists>r < length sts. reservation_station fu = Some r \<and> busy (sts ! r) \<and>
         executing (sts ! r) \<and> qj (sts ! r) = None \<and> qk (sts ! r) = None))"

definition bind_inv :: "Simulator \<Rightarrow> bool" where
  "bind_inv s =
     (map name (reservation_stations s) = station_names \<and>
      (\<forall>u < length (functional_units s).
         bound_ok (functional_units s ! u) (reservation_stations s)) \<and>
      (\<forall>u < length (functional_units s). \<forall>w < length (functional_units s).
         busy_fu (functional_units s ! u) \<and> busy_fu (functional_units s ! w) \<and>
         reservation_station (functional_units s ! u) =
           reservation_station (functional_units s ! w) \<longrightarrow> u = w))"


text \<open>
  What a station that holds an instruction can be written back with: it points to its
  instruction, and when its operation writes a register its destination is the name of
  a register. \<open>wf_inv\<close> says so of every busy station, and that the register file has
  its \<open>NUM_REGISTERS\<close> values and status entries.
\<close>

definition held_ok :: "ident \<Rightarrow> bool" where
  "held_ok x =
     (case x of (n, b, d, o', k) \<Rightarrow>
        b \<longrightarrow> k \<noteq> None \<and>
              (o' \<in> {Some ADD, Some SUB, Some MUL, Some DIV, Some LOAD} \<longrightarrow>
               (case get_register_index d of Inr i \<Rightarrow> True | Inl e \<Rightarrow> False)))"

definition wf_inv :: "Simulator \<Rightarrow> bool" where
  "wf_inv s =
     (length (registers (register_file s)) = NUM_REGISTERS \<and>
      length (status (register_file s)) = NUM_REGISTERS \<and>
      list_all held_ok (map ident (reservation_stations s)))"

text \<open>
  A division by zero that completes in the same cycle as an addition:
  \<open>DIV R1, R2, R0\<close>, \<open>LOAD R4, 0(R0)\<close>, \<open>LOAD R5, 0(R4)\<close>, \<open>LOAD R6, 0(R5)\<close>,
  \<open>ADD R7, R6, R2\<close>, \<open>ADD R3, R7, R2\<close>. The division starts in cycle 2 and its unit
  finishes in cycle 22; the chain of loads and additions makes the last addition finish
  in cycle 22 as well.
\<close>

definition prog_div_race :: "Instruction list" where
  "prog_div_race =
     [Instruction_init DIV (Some ''R1'') (Some ''R2'') (Some ''R0'') None None,
      Instruction_init LOAD (Some ''R4'') None None (Some 0) (Some ''R0''),
      Instruction_init LOAD (Some ''R5'') None None (Some 0) (Some ''R4''),
      Instruction_init LOAD (Some ''R6'') None None (Some 0) (Some ''R5''),
      Instruction_init ADD (Some ''R7'') (Some ''R6'') (Some ''R2'') None None,
      Instruction_init ADD (Some ''R3'') (Some ''R7'') (Some ''R2'') None None]"

text \<open>
  The value of register \<open>d\<close> and what has been printed after \<open>n\<close> ticks, if they raise
  nothing.
\<close>

definition reg_after :: "nat \<Rightarrow> nat \<Rightarrow> Simulator \<Rightarrow> val option" where
  "reg_after d n s =
     (case ticks n s of Inr s' \<Rightarrow> Some (registers (register_file s') ! d) | Inl e \<Rightarrow> None)"

definition stdout_after :: "nat \<Rightarrow> Simulator \<Rightarrow> msg list option" where
  "stdout_after n s = (case ticks n s of Inr s' \<Rightarrow> Some (stdout s') | Inl e \<Rightarrow> None)"

section \<open>Properties\<close>

subsection \<open>The bounded run agrees with the loop\<close>

lemma run_n_run: "run_n n s = Some r \<Longrightarrow> run s = Some r"
proof (induction n arbitrary: s)
  case 0
  then show ?case by simp
next
  case (Suc n)
  show ?case
  proof (cases "tick s")
    case (Inl e)
    with Suc.prems show ?thesis by (subst run.simps) simp
  next
    case (Inr p)
    obtain s' c where p: "p = (s', c)" by (cases p)
    show ?thesis
    proof (cases c)
      case True
      with Suc.prems Inr p have "run_n n s' = Some r" by simp
      then have "run s' = Some r" by (rule Suc.IH)
      with Inr p True show ?thesis by (subst run.simps) simp
    next
      case False
      with Suc.prems Inr p show ?thesis by (subst run.simps) simp
    qed
  qed
qed

subsection \<open>Memory\<close>

text \<open>
  Claim C9. For an address outside \<open>[0, MEMORY_SIZE)\<close>, \<open>Memory.read\<close> returns 0 and
  \<open>Memory.write\<close> leaves the array as it is, each printing one warning and neither
  raising; for an address inside the range (the array having its \<open>MEMORY_SIZE\<close> words),
  \<open>read\<close> returns the stored word and \<open>write\<close> stores the value, printing nothing.
\<close>

theorem memory_bounds:
  "(a < 0 \<or> a \<ge> MEMORY_SIZE \<longrightarrow>
      Memory_read m (Some a) = Inr (Some 0, [Warn_load_out_of_range a]) \<and>
      Memory_write m (Some a) v = Inr (m, [Warn_store_out_of_range a])) \<and>
   (0 \<le> a \<and> a < MEMORY_SIZE \<and> length m = nat MEMORY_SIZE \<longrightarrow>
      Memory_read m (Some a) = Inr (m ! nat a, []) \<and>
      Memory_write m (Some a) v = Inr (m[nat a := v], []))"
  by (auto simp: MEMORY_SIZE_def)

theorem memory_bounds_witness:
  "((2000::int) < 0 \<or> 2000 \<ge> MEMORY_SIZE) \<and>
   Memory_read Memory_init (Some 2000) = Inr (Some 0, [Warn_load_out_of_range 2000]) \<and>
   Memory_write Memory_init (Some 2000) (Some 9) = Inr (Memory_init, [Warn_store_out_of_range 2000]) \<and>
   ((0::int) \<le> 3 \<and> 3 < MEMORY_SIZE \<and> length Memory_init = nat MEMORY_SIZE) \<and>
   Memory_read Memory_init (Some 3) = Inr (Some 0, []) \<and>
   Memory_write Memory_init (Some 3) (Some 9) = Inr (Memory_init[3 := Some 9], [])"
  using memory_bounds [of 2000 Memory_init "Some 9"] memory_bounds [of 3 Memory_init "Some 9"]
  by (simp add: MEMORY_SIZE_def Memory_init_def)

subsection \<open>Issue\<close>

text \<open>
  Claim C5. When \<open>issue\<close> has an instruction to issue and no station of its class is free,
  it returns \<open>False\<close> and the only change to the simulator is that the
  structural-hazard-stall counter is one higher: \<open>pc\<close>, the register file, the stations
  and the functional units are as before, so the next tick tries the same instruction.
\<close>

theorem issue_structural_hazard:
  assumes "pc s < length (instructions s)"
    and "get_available_station (reservation_stations s) (op (instructions s ! pc s)) = None"
  shows "issue s = Inr (s\<lparr>metrics := (metrics s)\<lparr>structural_hazard_stalls :=
                          structural_hazard_stalls (metrics s) + 1\<rparr>\<rparr>, False)"
  using assms by (simp add: issue_def increment_structural_hazard_stalls_def)

theorem issue_structural_hazard_witness:
  "\<exists>s. ticks 2 (Simulator_init regs0 prog_mul3) = Inr s \<and>
       pc s < length (instructions s) \<and>
       get_available_station (reservation_stations s) (op (instructions s ! pc s)) = None \<and>
       issue s = Inr (s\<lparr>metrics := (metrics s)\<lparr>structural_hazard_stalls :=
                          structural_hazard_stalls (metrics s) + 1\<rparr>\<rparr>, False)"
proof -
  have "case ticks 2 (Simulator_init regs0 prog_mul3) of
          Inr s \<Rightarrow> pc s < length (instructions s) \<and>
            get_available_station (reservation_stations s) (op (instructions s ! pc s)) = None
        | Inl _ \<Rightarrow> False"
    by code_simp
  then obtain s where s: "ticks 2 (Simulator_init regs0 prog_mul3) = Inr s"
    and h1: "pc s < length (instructions s)"
    and h2: "get_available_station (reservation_stations s) (op (instructions s ! pc s)) = None"
    by (auto split: sum.splits)
  from issue_structural_hazard [OF h1 h2] s h1 h2 show ?thesis by blast
qed

subsection \<open>A single addition\<close>

text \<open>
  Claim C4. For the trace \<open>ADD R4, R1, R2\<close> with R1 = 5 and R2 = 7 (the other registers
  arbitrary), \<open>run\<close> returns after exactly 4 ticks: the instruction is issued in cycle 1,
  starts executing in cycle 2 and completes and writes back in cycle 4; R4 is then 12
  and the instructions-per-cycle figure of the report is 1/4 = 0.25.
\<close>

theorem single_add_run:
  "\<exists>s'. run (Simulator_init [5, 7, r3, r4, r5, r6, r7] prog_add) = Some (Inr s') \<and>
        cycle s' = 4 \<and> total_cycles (metrics s') = 4 \<and>
        issue_cycle (instructions s' ! 0) = Some 1 \<and>
        start_cycle (instructions s' ! 0) = Some 2 \<and>
        execute_complete_cycle (instructions s' ! 0) = Some 4 \<and>
        write_result_cycle (instructions s' ! 0) = Some 4 \<and>
        registers (register_file s') ! 4 = Some 12 \<and>
        ipc (metrics s') = 0.25"
proof -
  let ?init = "Simulator_init [5, 7, r3, r4, r5, r6, r7] prog_add"
  have "case run_n 4 ?init of
          Some (Inr s') \<Rightarrow>
            cycle s' = 4 \<and> total_cycles (metrics s') = 4 \<and>
            completed_instructions (metrics s') = 1 \<and>
            issue_cycle (instructions s' ! 0) = Some 1 \<and>
            start_cycle (instructions s' ! 0) = Some 2 \<and>
            execute_complete_cycle (instructions s' ! 0) = Some 4 \<and>
            write_result_cycle (instructions s' ! 0) = Some 4 \<and>
            registers (register_file s') ! 4 = Some 12
        | _ \<Rightarrow> False"
    by code_simp
  then obtain s' where r: "run_n 4 ?init = Some (Inr s')"
    and f: "cycle s' = 4" "total_cycles (metrics s') = 4"
      "completed_instructions (metrics s') = 1"
      "issue_cycle (instructions s' ! 0) = Some 1"
      "start_cycle (instructions s' ! 0) = Some 2"
      "execute_complete_cycle (instructions s' ! 0) = Some 4"
      "write_result_cycle (instructions s' ! 0) = Some 4"
      "registers (register_file s') ! 4 = Some 12"
    by (auto split: option.splits sum.splits)
  have "ipc (metrics s') = 0.25" using f by (simp add: ipc_def)
  moreover have "run ?init = Some (Inr s')" using r by (rule run_n_run)
  ultimately show ?thesis using f by blast
qed

subsection \<open>What ticking the functional units leaves unchanged\<close>

lemma map_update_same:
  assumes "f x = f (xs ! r)"
  shows "map f (xs[r := x]) = map f xs"
proof (cases "r < length xs")
  case True
  have "map f (xs[r := x]) = (map f xs)[r := f x]" by (simp add: map_update)
  also have "\<dots> = (map f xs)[r := (map f xs) ! r]" using True assms by simp
  also have "\<dots> = map f xs" by (rule list_update_id)
  finally show ?thesis .
next
  case False
  then show ?thesis by (simp add: list_update_beyond)
qed

lemma station_index_names:
  "map name a = map name b \<Longrightarrow> station_index a n i = station_index b n i"
proof (induction a arbitrary: b i)
  case Nil
  then show ?case by simp
next
  case (Cons x a)
  then obtain y b' where b: "b = y # b'" and xy: "name x = name y"
    and ab: "map name a = map name b'"
    by (cases b) auto
  from Cons.IH [OF ab, of "Suc i"] b xy show ?case by simp
qed

lemma station_index_Some:
  "station_index sts n i = Some r \<Longrightarrow> \<exists>j<length sts. r = i + j \<and> name (sts ! j) = n"
proof (induction sts arbitrary: i)
  case Nil
  then show ?case by simp
next
  case (Cons st sts)
  show ?case
  proof (cases "name st = n")
    case True
    with Cons.prems show ?thesis by auto
  next
    case False
    with Cons.prems have "station_index sts n (Suc i) = Some r" by simp
    from Cons.IH [OF this] obtain j where "j < length sts" "r = Suc i + j" "name (sts ! j) = n"
      by blast
    then have "Suc j < length (st # sts) \<and> r = i + Suc j \<and> name ((st # sts) ! Suc j) = n"
      by simp
    then show ?thesis by blast
  qed
qed

lemma get_station_by_name_Some:
  "get_station_by_name sts n = Some r \<Longrightarrow> r < length sts \<and> name (sts ! r) = n"
  using station_index_Some [of sts n 0 r] by (auto simp: get_station_by_name_def)

lemma core_sel:
  "name (core a) = name a" "op_rs (core a) = op_rs a" "vj (core a) = vj a" "vk (core a) = vk a"
  "qj (core a) = qj a" "qk (core a) = qk a" "busy (core a) = busy a"
  "dest_rs (core a) = dest_rs a" "instruction (core a) = instruction a"
  "offset_rs (core a) = offset_rs a" "address (core a) = address a"
  by (simp_all add: core_def)

lemma core_fields:
  assumes "core a = core b"
  shows "name a = name b" "op_rs a = op_rs b" "vj a = vj b" "vk a = vk b"
    "qj a = qj b" "qk a = qk b" "busy a = busy b" "dest_rs a = dest_rs b"
    "instruction a = instruction b" "offset_rs a = offset_rs b" "address a = address b"
  using core_sel [of a] core_sel [of b] assms by simp_all

lemma map_core_nth:
  "map core a = map core b \<Longrightarrow> r < length b \<Longrightarrow> core (a ! r) = core (b ! r)"
  by (metis length_map nth_map)

lemma map_core_names: "map core a = map core b \<Longrightarrow> map name a = map name b"
proof -
  assume h: "map core a = map core b"
  have "map name a = map (name \<circ> core) a" by (simp add: core_def)
  also have "\<dots> = map name (map core a)" by simp
  also have "\<dots> = map name (map core b)" using h by simp
  also have "\<dots> = map name b" by (simp add: core_def)
  finally show ?thesis .
qed

lemma FunctionalUnit_tick_frame:
  assumes "FunctionalUnit_tick u s = Inr (s1, res)"
  shows "register_file s1 = register_file s" "instructions s1 = instructions s"
    "pc s1 = pc s" "cycle s1 = cycle s" "metrics s1 = metrics s" "cdb s1 = cdb s"
    "map core (reservation_stations s1) = map core (reservation_stations s)"
    "length (functional_units s1) = length (functional_units s)"
  using assms
  by (auto simp: FunctionalUnit_tick_def Let_def core_def map_update_same
           split: if_splits option.splits sum.splits prod.splits)

lemma units_tick_frame:
  "units_tick us s = Inr (s1, results) \<Longrightarrow>
     register_file s1 = register_file s \<and> instructions s1 = instructions s \<and>
     pc s1 = pc s \<and> cycle s1 = cycle s \<and> metrics s1 = metrics s \<and> cdb s1 = cdb s \<and>
     map core (reservation_stations s1) = map core (reservation_stations s) \<and>
     length (functional_units s1) = length (functional_units s)"
proof (induction us arbitrary: s s1 results)
  case Nil
  then show ?case by simp
next
  case (Cons u us)
  from Cons.prems obtain sa ra sb rb where a: "FunctionalUnit_tick u s = Inr (sa, ra)"
    and b: "units_tick us sa = Inr (sb, rb)" and c: "s1 = sb"
    by (auto split: sum.splits prod.splits)
  from FunctionalUnit_tick_frame [OF a] Cons.IH [OF b] c show ?case by simp
qed

subsection \<open>Write-back of a store\<close>

text \<open>
  Claim C7. When the completion that \<open>write_back\<close> processes (the first one returned by
  \<open>FunctionalUnits.tick\<close>) belongs to a station holding a STORE, \<open>write_back\<close> returns
  normally and the register file afterwards is the register file before: no register
  value and no status entry has changed.
\<close>

theorem store_write_back_frame:
  assumes "FunctionalUnits_tick (s\<lparr>cdb := CommonDataBus_clear\<rparr>) = Inr (s1, (rs_name, result) # rest)"
    and "get_station_by_name (reservation_stations s) rs_name = Some r"
    and "op_rs (reservation_stations s ! r) = Some STORE"
    and "instruction (reservation_stations s ! r) = Some k"
  shows "\<exists>s'. write_back s = Inr s' \<and> register_file s' = register_file s"
proof -
  from assms(1) have fr: "register_file s1 = register_file s"
    "map core (reservation_stations s1) = map core (reservation_stations s)"
    using units_tick_frame [of "[0 ..< length (functional_units (s\<lparr>cdb := CommonDataBus_clear\<rparr>))]"
        "s\<lparr>cdb := CommonDataBus_clear\<rparr>" s1 "(rs_name, result) # rest"]
    by (simp_all add: FunctionalUnits_tick_def)
  from assms(2) have r: "r < length (reservation_stations s)"
    by (simp add: get_station_by_name_Some)
  have g: "get_station_by_name (reservation_stations s1) rs_name = Some r"
    using assms(2) station_index_names [OF map_core_names [OF fr(2)]]
    by (simp add: get_station_by_name_def)
  from map_core_nth [OF fr(2) r] have "core (reservation_stations s1 ! r) = core (reservation_stations s ! r)" .
  from core_fields [OF this] assms(3,4)
  have o: "op_rs (reservation_stations s1 ! r) = Some STORE"
    and i: "instruction (reservation_stations s1 ! r) = Some k" by simp_all
  show ?thesis
    using assms(1) g o i fr(1)
    by (simp add: write_back_def write_back_first_def Let_def)
qed

theorem store_write_back_frame_witness:
  "\<exists>s s1 result rest.
     ticks 6 (Simulator_init regs0 prog_store) = Inr s \<and>
     FunctionalUnits_tick (s\<lparr>cdb := CommonDataBus_clear\<rparr>) = Inr (s1, (''STORE1'', result) # rest) \<and>
     get_station_by_name (reservation_stations s) ''STORE1'' = Some 7 \<and>
     op_rs (reservation_stations s ! 7) = Some STORE \<and>
     instruction (reservation_stations s ! 7) = Some 0 \<and>
     (\<exists>s'. write_back s = Inr s' \<and> register_file s' = register_file s)"
proof -
  have "case ticks 6 (Simulator_init regs0 prog_store) of
          Inr s \<Rightarrow>
            (case FunctionalUnits_tick (s\<lparr>cdb := CommonDataBus_clear\<rparr>) of
               Inr (s1, (n, result) # rest) \<Rightarrow>
                 n = ''STORE1'' \<and>
                 get_station_by_name (reservation_stations s) ''STORE1'' = Some 7 \<and>
                 op_rs (reservation_stations s ! 7) = Some STORE \<and>
                 instruction (reservation_stations s ! 7) = Some 0
             | _ \<Rightarrow> False)
        | Inl _ \<Rightarrow> False"
    by code_simp
  then obtain s s1 result rest where s: "ticks 6 (Simulator_init regs0 prog_store) = Inr s"
    and h1: "FunctionalUnits_tick (s\<lparr>cdb := CommonDataBus_clear\<rparr>) = Inr (s1, (''STORE1'', result) # rest)"
    and h2: "get_station_by_name (reservation_stations s) ''STORE1'' = Some 7"
    and h3: "op_rs (reservation_stations s ! 7) = Some STORE"
    and h4: "instruction (reservation_stations s ! 7) = Some 0"
    by (auto split: sum.splits prod.splits list.splits)
  from store_write_back_frame [OF h1 h2 h3 h4] s h1 h2 h3 h4 show ?thesis by blast
qed

subsection \<open>Division by zero\<close>



subsection \<open>Loading a trace\<close>

text \<open>
  Claim C6 says that a line that fails to parse is reported with its number and skipped,
  and never aborts loading. That is so for a line whose failure is a \<open>ValueError\<close> (an
  unknown operation, an offset that is not an integer): the first equation loads lines 1
  and 3 and reports line 2. A line with too few operands fails with \<open>IndexError\<close>, which
  \<open>parse_file\<close> does not catch: the second equation shows the whole load aborted, the
  well-formed lines 1 and 3 included.
\<close>

theorem parse_file_short_line_aborts:
  "parse_file [''ADD R1, R2, R3'', ''FOO R1, R2, R3'', ''SUB R4, R1, R2''] =
     Inr ([Instruction_init ADD (Some ''R1'') (Some ''R2'') (Some ''R3'') None None,
           Instruction_init SUB (Some ''R4'') (Some ''R1'') (Some ''R2'') None None],
          [Error_parsing_line 2 ''FOO R1, R2, R3'']) \<and>
   parse_file [''ADD R1, R2, R3'', ''ADD R1, R2'', ''SUB R4, R1, R2''] = Inl IndexError"
  by code_simp

subsection \<open>The effect of each phase on the stations and the status vector\<close>

lemma ident_core: "core a = core b \<Longrightarrow> ident a = ident b"
  using core_fields [of a b] by (simp add: ident_def)

lemma map_core_ident:
  assumes "map core a = map core b"
  shows "map ident a = map ident b"
proof -
  have "map ident a = map (\<lambda>c. ident c) (map core a)"
    by (simp add: ident_def core_def)
  also have "\<dots> = map (\<lambda>c. ident c) (map core b)" using assms by simp
  also have "\<dots> = map ident b" by (simp add: ident_def core_def)
  finally show ?thesis .
qed

lemma map_ident_names: "map ident a = map ident b \<Longrightarrow> map name a = map name b"
proof -
  assume h: "map ident a = map ident b"
  have "map name a = map fst (map ident a)" by (simp add: ident_def)
  also have "\<dots> = map fst (map ident b)" using h by simp
  also have "\<dots> = map name b" by (simp add: ident_def)
  finally show ?thesis .
qed

lemma map_ident_nth:
  "map ident a = map ident b \<Longrightarrow> i < length b \<Longrightarrow> ident (a ! i) = ident (b ! i)"
  by (metis length_map nth_map)

lemma first_free_Some: "first_free sts idx = Some r \<Longrightarrow> r \<in> set idx \<and> \<not> busy (sts ! r)"
  by (induction idx) (auto split: if_splits)

lemma get_available_station_Some:
  assumes "get_available_station sts o' = Some r"
  shows "r < 9 \<and> \<not> busy (sts ! r)"
proof -
  from assms have "r \<in> set alu_stations \<union> set mul_div_stations \<union> set load_buffers \<union> set store_buffers
      \<and> \<not> busy (sts ! r)"
    by (cases o') (auto dest: first_free_Some)
  then show ?thesis
    by (auto simp: alu_stations_def mul_div_stations_def load_buffers_def store_buffers_def
          NUM_ALU_RS_def NUM_MUL_DIV_RS_def NUM_LOAD_BUFFER_ENTRIES_def
          NUM_STORE_BUFFER_ENTRIES_def)
qed

lemma capture_j_fields:
  "capture_j rf reg rs = Inr rs' \<Longrightarrow>
     ident rs' = ident rs \<and> executing rs' = executing rs \<and> qk rs' = qk rs"
  by (auto simp: capture_j_def ident_def split: sum.splits option.splits)

lemma capture_k_fields:
  "capture_k rf reg rs = Inr rs' \<Longrightarrow>
     ident rs' = ident rs \<and> executing rs' = executing rs \<and> qj rs' = qj rs"
  by (auto simp: capture_k_def ident_def split: sum.splits option.splits)

lemma set_status_Inr:
  "set_status rf reg v = Inr rf' \<Longrightarrow>
     \<exists>d. get_register_index reg = Inr d \<and> d < length (status rf) \<and>
         status rf' = (status rf)[d := v] \<and> registers rf' = registers rf"
  by (auto simp: set_status_def split: sum.splits if_splits)

lemma issue_operands_effect:
  assumes "issue_operands i rf rs = Inr (rs', rf')"
  shows "name rs' = name rs \<and> busy rs' = busy rs \<and> op_rs rs' = op_rs rs \<and>
         instruction rs' = instruction rs \<and> executing rs' = executing rs \<and>
         (if op i = STORE then rf' = rf
          else dest_rs rs' = dest i \<and>
               (\<exists>d. get_register_index (dest i) = Inr d \<and> d < length (status rf) \<and>
                    status rf' = (status rf)[d := Some (name rs)]))"
proof (cases "op i \<in> {ADD, SUB, MUL, DIV}")
  case True
  with assms obtain rs1 rs2 where
    a: "capture_j rf (src1 i) (rs\<lparr>dest_rs := dest i\<rparr>) = Inr rs1"
    and b: "capture_k rf (src2 i) rs1 = Inr rs2"
    and c: "set_status rf (dest i) (Some (name rs2)) = Inr rf'" and d: "rs' = rs2"
    by (auto simp: issue_operands_def split: sum.splits)
  from capture_j_fields [OF a] capture_k_fields [OF b] d
  have e: "ident rs' = ident (rs\<lparr>dest_rs := dest i\<rparr>)"
    "executing rs' = executing rs" by simp_all
  from e(1) have f: "name rs' = name rs" "busy rs' = busy rs" "op_rs rs' = op_rs rs"
    "instruction rs' = instruction rs" "dest_rs rs' = dest i"
    by (simp_all add: ident_def)
  from set_status_Inr [OF c] d f(1) True e(2) f show ?thesis by auto
next
  case False
  note na = False
  show ?thesis
  proof (cases "op i = LOAD")
    case True
    with assms na obtain rs1 where
      a: "capture_j rf (base i) (rs\<lparr>dest_rs := dest i\<rparr>) = Inr rs1"
      and c: "set_status rf (dest i) (Some (name rs1)) = Inr rf'"
      and d: "rs' = rs1\<lparr>offset_rs := offset i\<rparr>"
      by (auto simp: issue_operands_def split: sum.splits)
    from capture_j_fields [OF a]
    have e: "ident rs1 = ident (rs\<lparr>dest_rs := dest i\<rparr>)" "executing rs1 = executing rs"
      by simp_all
    from e(1) d have f: "name rs' = name rs" "busy rs' = busy rs" "op_rs rs' = op_rs rs"
      "instruction rs' = instruction rs" "dest_rs rs' = dest i" "name rs1 = name rs"
      by (simp_all add: ident_def)
    from set_status_Inr [OF c] d True e(2) f show ?thesis by auto
  next
    case False
    with na have st: "op i = STORE" by (cases "op i") auto
    with assms have eq:
      "(case capture_j rf (base i) rs of
          Inl e \<Rightarrow> Inl e
        | Inr rs1 \<Rightarrow>
            (case capture_k rf (src1 i) rs1 of
               Inl e \<Rightarrow> Inl e
             | Inr rs2 \<Rightarrow> Inr (rs2\<lparr>offset_rs := offset i\<rparr>, rf))) = Inr (rs', rf')"
      by (simp add: issue_operands_def)
    then obtain rs1 where a: "capture_j rf (base i) rs = Inr rs1"
      by (cases "capture_j rf (base i) rs") auto
    with eq obtain rs2 where b: "capture_k rf (src1 i) rs1 = Inr rs2"
      by (cases "capture_k rf (src1 i) rs1") auto
    from eq a b have d: "rs' = rs2\<lparr>offset_rs := offset i\<rparr>" and g: "rf' = rf"
      by simp_all
    from capture_j_fields [OF a] capture_k_fields [OF b]
    have e: "ident rs2 = ident rs" "executing rs2 = executing rs" by simp_all
    from e(1) d have f: "name rs' = name rs" "busy rs' = busy rs" "op_rs rs' = op_rs rs"
      "instruction rs' = instruction rs"
      by (simp_all add: ident_def)
    from d st e(2) f g show ?thesis by simp
  qed
qed

lemma issue_effect:
  assumes "issue s = Inr (s', b)"
  shows "memory s' = memory s \<and> functional_units s' = functional_units s \<and>
         cycle s' = cycle s \<and> length (instructions s') = length (instructions s) \<and>
         length (reservation_stations s') = length (reservation_stations s) \<and>
         ((\<not> b \<and> reservation_stations s' = reservation_stations s \<and>
           register_file s' = register_file s \<and> pc s' = pc s \<and>
           instructions s' = instructions s) \<or>
          (b \<and> pc s < length (instructions s) \<and> pc s' = pc s + 1 \<and>
           instructions s' = (instructions s)
              [pc s := (instructions s ! pc s)\<lparr>issue_cycle := Some (cycle s)\<rparr>] \<and>
           (\<exists>r rs'. r < 9 \<and> \<not> busy (reservation_stations s ! r) \<and>
              reservation_stations s' = (reservation_stations s)[r := rs'] \<and>
              name rs' = name (reservation_stations s ! r) \<and> busy rs' \<and>
              op_rs rs' = Some (op (instructions s ! pc s)) \<and>
              instruction rs' = Some (pc s) \<and>
              executing rs' = executing (reservation_stations s ! r) \<and>
              (if op (instructions s ! pc s) = STORE then register_file s' = register_file s
               else dest_rs rs' = dest (instructions s ! pc s) \<and>
                    (\<exists>d. get_register_index (dest (instructions s ! pc s)) = Inr d \<and>
                         d < length (status (register_file s)) \<and>
                         status (register_file s') = (status (register_file s))
                            [d := Some (name (reservation_stations s ! r))])))))"
proof (cases "pc s \<ge> length (instructions s)")
  case True
  with assms show ?thesis by (simp add: issue_def)
next
  case False
  note pcl = False
  let ?i = "instructions s ! pc s"
  show ?thesis
  proof (cases "get_available_station (reservation_stations s) (op ?i)")
    case None
    with assms pcl show ?thesis by (auto simp: issue_def)
  next
    case (Some r)
    let ?rs = "(reservation_stations s ! r)
                 \<lparr>busy := True, op_rs := Some (op ?i), instruction := Some (pc s)\<rparr>"
    from assms pcl Some obtain rs' rf' where
      io: "issue_operands ?i (register_file s) ?rs = Inr (rs', rf')"
      and s': "s' = s\<lparr>register_file := rf',
                       reservation_stations := (reservation_stations s)[r := rs'],
                       instructions := (instructions s)
                          [pc s := ?i\<lparr>issue_cycle := Some (cycle s)\<rparr>],
                       pc := pc s + 1\<rparr>"
      and b: "b"
      by (auto simp: issue_def Let_def split: sum.splits)
    from get_available_station_Some [OF Some]
    have r: "r < 9" "\<not> busy (reservation_stations s ! r)" by simp_all
    from issue_operands_effect [OF io]
    have e: "name rs' = name (reservation_stations s ! r)" "busy rs'"
      "op_rs rs' = Some (op ?i)" "instruction rs' = Some (pc s)"
      "executing rs' = executing (reservation_stations s ! r)"
      "if op ?i = STORE then rf' = register_file s
       else dest_rs rs' = dest ?i \<and>
            (\<exists>d. get_register_index (dest ?i) = Inr d \<and>
                 d < length (status (register_file s)) \<and>
                 status rf' = (status (register_file s))
                    [d := Some (name (reservation_stations s ! r))])"
      by (simp_all cong: if_cong)
    have "\<exists>r rs'. r < 9 \<and> \<not> busy (reservation_stations s ! r) \<and>
              reservation_stations s' = (reservation_stations s)[r := rs'] \<and>
              name rs' = name (reservation_stations s ! r) \<and> busy rs' \<and>
              op_rs rs' = Some (op ?i) \<and>
              instruction rs' = Some (pc s) \<and>
              executing rs' = executing (reservation_stations s ! r) \<and>
              (if op ?i = STORE then register_file s' = register_file s
               else dest_rs rs' = dest ?i \<and>
                    (\<exists>d. get_register_index (dest ?i) = Inr d \<and>
                         d < length (status (register_file s)) \<and>
                         status (register_file s') = (status (register_file s))
                            [d := Some (name (reservation_stations s ! r))]))"
      using r e s' by (intro exI [of _ r] exI [of _ rs']) simp
    with s' b pcl show ?thesis by simp
  qed
qed

lemma update_station_from_cdb_fields:
  "ident (update_station_from_cdb n v st) = ident st"
  "executing (update_station_from_cdb n v st) = executing st"
  "qj st = None \<Longrightarrow> qj (update_station_from_cdb n v st) = None"
  "qk st = None \<Longrightarrow> qk (update_station_from_cdb n v st) = None"
  by (simp_all add: update_station_from_cdb_def ident_def Let_def)

lemma update_station_from_cdb_ready:
  "qj st = None \<Longrightarrow> qk st = None \<Longrightarrow> update_station_from_cdb n v st = st"
  by (simp add: update_station_from_cdb_def)

lemma write_back_first_effect:
  assumes "write_back_first n v s = Inr s'"
  shows "memory s' = memory s \<and> functional_units s' = functional_units s \<and>
         pc s' = pc s \<and> cycle s' = cycle s \<and> stdout s' = stdout s \<and>
         length (instructions s') = length (instructions s) \<and>
         ((get_station_by_name (reservation_stations s) n = None \<and>
           reservation_stations s' = reservation_stations s \<and>
           register_file s' = register_file s \<and> instructions s' = instructions s) \<or>
          (\<exists>r k. get_station_by_name (reservation_stations s) n = Some r \<and>
             instruction (reservation_stations s ! r) = Some k \<and>
             instructions s' = (instructions s)
               [k := (instructions s ! k)\<lparr>execute_complete_cycle := Some (cycle s),
                                           write_result_cycle := Some (cycle s)\<rparr>] \<and>
             reservation_stations s' = (update_from_cdb (reservation_stations s) n v)
               [r := clear (update_from_cdb (reservation_stations s) n v ! r)] \<and>
             (if op_rs (reservation_stations s ! r) \<in>
                   {Some ADD, Some SUB, Some MUL, Some DIV, Some LOAD}
              then \<exists>d. get_register_index (dest_rs (reservation_stations s ! r)) = Inr d \<and>
                     d < length (status (register_file s)) \<and>
                     status (register_file s') =
                       (if status (register_file s) ! d = Some n
                        then (status (register_file s))[d := None]
                        else status (register_file s))
              else register_file s' = register_file s)))"
proof (cases "get_station_by_name (reservation_stations s) n")
  case None
  with assms show ?thesis by (auto simp: write_back_first_def Let_def)
next
  case (Some r)
  let ?rs = "reservation_stations s ! r"
  from assms Some obtain k where k: "instruction ?rs = Some k"
    by (cases "instruction ?rs") (auto simp: write_back_first_def Let_def)
  let ?rf = "register_file s"
  let ?wr = "if op_rs ?rs \<in> {Some ADD, Some SUB, Some MUL, Some DIV, Some LOAD} then
               (case RegisterFile_write ?rf (dest_rs ?rs) v of
                  Inl e \<Rightarrow> Inl e
                | Inr rf1 \<Rightarrow>
                   (case get_status rf1 (dest_rs ?rs) of
                      Inl e \<Rightarrow> Inl e
                    | Inr st \<Rightarrow>
                       (if st = Some n then set_status rf1 (dest_rs ?rs) None
                        else Inr rf1)))
             else Inr ?rf"
  from assms Some k obtain rf' where wr: "?wr = Inr rf'"
    by (cases ?wr) (auto simp: write_back_first_def Let_def split: if_splits)
  let ?sts = "update_from_cdb (reservation_stations s) n v"
  from assms Some k wr have s': "s' = s\<lparr>cdb := fst (broadcast (cdb s) n v),
      instructions := (instructions s)
        [k := (instructions s ! k)\<lparr>execute_complete_cycle := Some (cycle s),
                                    write_result_cycle := Some (cycle s)\<rparr>],
      register_file := rf', reservation_stations := ?sts[r := clear (?sts ! r)],
      metrics := (metrics s)\<lparr>completed_instructions :=
                                completed_instructions (metrics s) + 1\<rparr>\<rparr>"
    by (auto simp: write_back_first_def Let_def split: if_splits)
  have rf: "if op_rs ?rs \<in> {Some ADD, Some SUB, Some MUL, Some DIV, Some LOAD}
            then \<exists>d. get_register_index (dest_rs ?rs) = Inr d \<and>
                   d < length (status ?rf) \<and>
                   status rf' = (if status ?rf ! d = Some n then (status ?rf)[d := None]
                                 else status ?rf)
            else rf' = ?rf"
    using wr
    by (auto simp: RegisterFile_write_def get_status_def set_status_def
             split: sum.splits if_splits)
  from s' Some k rf show ?thesis by simp
qed

lemma first_accepting_Some:
  "first_accepting fus o' i = Some u \<Longrightarrow>
     \<exists>j<length fus. u = i + j \<and> can_accept (fus ! j) o'"
proof (induction fus arbitrary: i)
  case Nil
  then show ?case by simp
next
  case (Cons fu fus)
  show ?case
  proof (cases "can_accept fu o'")
    case True
    with Cons.prems show ?thesis by auto
  next
    case False
    with Cons.prems have "first_accepting fus o' (Suc i) = Some u" by simp
    from Cons.IH [OF this] obtain j where "j < length fus" "u = Suc i + j"
      "can_accept (fus ! j) o'" by blast
    then have "Suc j < length (fu # fus) \<and> u = i + Suc j \<and> can_accept ((fu # fus) ! Suc j) o'"
      by simp
    then show ?thesis by blast
  qed
qed

lemma get_available_Some:
  "get_available fus o' = Some u \<Longrightarrow> u < length fus \<and> \<not> busy_fu (fus ! u) \<and> o' \<noteq> None"
  using first_accepting_Some [of fus o' 0 u]
  by (auto simp: get_available_def can_accept_def split: option.splits)

lemma stamps_start_cycle: "stamps (i\<lparr>start_cycle := c\<rparr>) = stamps i"
  by (simp add: stamps_def)

lemma execute_station_effect:
  assumes "execute_station r s = Inr s'" and "r < length (reservation_stations s)"
  shows "register_file s' = register_file s \<and> memory s' = memory s \<and> pc s' = pc s \<and>
         cycle s' = cycle s \<and> metrics s' = metrics s \<and> stdout s' = stdout s \<and>
         cdb s' = cdb s \<and>
         map stamps (instructions s') = map stamps (instructions s) \<and>
         (s' = s \<or>
          (\<exists>u x fu. isReady (reservation_stations s ! r) \<and>
             u < length (functional_units s) \<and> \<not> busy_fu (functional_units s ! u) \<and>
             functional_units s' = (functional_units s)[u := fu] \<and>
             busy_fu fu \<and> reservation_station fu = Some r \<and>
             reservation_stations s' = (reservation_stations s)[r := x] \<and>
             ident x = ident (reservation_stations s ! r) \<and> executing x \<and>
             qj x = qj (reservation_stations s ! r) \<and>
             qk x = qk (reservation_stations s ! r) \<and>
             vj x = vj (reservation_stations s ! r) \<and>
             vk x = vk (reservation_stations s ! r)))"
proof -
  let ?rs = "reservation_stations s ! r"
  show ?thesis
  proof (cases "isReady ?rs \<and> \<not> executing ?rs")
    case False
    with assms show ?thesis by (auto simp: execute_station_def Let_def)
  next
    case True
    note rdy = True
    show ?thesis
    proof (cases "get_available (functional_units s) (op_rs ?rs)")
      case None
      with assms rdy show ?thesis by (auto simp: execute_station_def Let_def)
    next
      case (Some u)
      from get_available_Some [OF Some] obtain o' where u: "u < length (functional_units s)"
        "\<not> busy_fu (functional_units s ! u)" and o: "op_rs ?rs = Some o'" by auto
      from assms rdy Some o obtain k where k: "instruction ?rs = Some k"
        by (cases "instruction ?rs") (auto simp: execute_station_def Let_def)
      let ?fu = "(functional_units s ! u)\<lparr>busy_fu := True, reservation_station := Some r,
                    cycles_left := LATENCIES o'\<rparr>"
      let ?x = "?rs\<lparr>executing := True, execution_cycles_left := LATENCIES o'\<rparr>"
      let ?ins = "(instructions s)[k := (instructions s ! k)\<lparr>start_cycle := Some (cycle s)\<rparr>]"
      have ms: "map stamps ?ins = map stamps (instructions s)"
        by (rule map_update_same) (simp add: stamps_start_cycle)
      from assms rdy Some o k
      have fr: "register_file s' = register_file s" "memory s' = memory s" "pc s' = pc s"
        "cycle s' = cycle s" "metrics s' = metrics s" "stdout s' = stdout s" "cdb s' = cdb s"
        and fu: "functional_units s' = (functional_units s)[u := ?fu]"
        and ins: "instructions s' = ?ins"
        and st: "(\<exists>a. reservation_stations s' =
                      (reservation_stations s)[r := ?x\<lparr>address := a\<rparr>]) \<or>
                 reservation_stations s' = (reservation_stations s)[r := ?x]"
        by (auto simp: execute_station_def Let_def start_execution_def
                 split: if_splits sum.splits)
      from st obtain x where st': "reservation_stations s' = (reservation_stations s)[r := x]"
        and x: "ident x = ident ?rs" "executing x" "qj x = qj ?rs" "qk x = qk ?rs"
          "vj x = vj ?rs" "vk x = vk ?rs"
        by (auto simp: ident_def)
      have "\<exists>u x fu. isReady ?rs \<and>
             u < length (functional_units s) \<and> \<not> busy_fu (functional_units s ! u) \<and>
             functional_units s' = (functional_units s)[u := fu] \<and>
             busy_fu fu \<and> reservation_station fu = Some r \<and>
             reservation_stations s' = (reservation_stations s)[r := x] \<and>
             ident x = ident ?rs \<and> executing x \<and> qj x = qj ?rs \<and> qk x = qk ?rs \<and>
             vj x = vj ?rs \<and> vk x = vk ?rs"
        using rdy u fu st' x by (intro exI [of _ u] exI [of _ x] exI [of _ ?fu]) simp
      with fr ins ms show ?thesis by simp
    qed
  qed
qed

subsection \<open>Status tags name busy producers\<close>

lemma tag_invD:
  "tag_inv s \<Longrightarrow> r < length (status (register_file s)) \<Longrightarrow>
     status (register_file s) ! r = Some t \<Longrightarrow>
     \<exists>i < length (reservation_stations s). produces (ident (reservation_stations s ! i)) t r"
  unfolding tag_inv_def by blast

lemma tag_invI:
  assumes "map name (reservation_stations s) = station_names"
    and "length (status (register_file s)) = NUM_REGISTERS"
    and "\<And>r t. r < length (status (register_file s)) \<Longrightarrow>
            status (register_file s) ! r = Some t \<Longrightarrow>
            \<exists>i < length (reservation_stations s). produces (ident (reservation_stations s ! i)) t r"
  shows "tag_inv s"
  unfolding tag_inv_def using assms by blast

lemma tag_inv_names: "tag_inv s \<Longrightarrow> map name (reservation_stations s) = station_names"
  unfolding tag_inv_def by blast

lemma tag_inv_status_length: "tag_inv s \<Longrightarrow> length (status (register_file s)) = NUM_REGISTERS"
  unfolding tag_inv_def by blast

lemma write_back_cases:
  assumes "write_back s = Inr s'"
  shows "\<exists>s1 res.
           units_tick [0 ..< length (functional_units s)] (s\<lparr>cdb := CommonDataBus_clear\<rparr>) =
             Inr (s1, res) \<and>
           ((res = [] \<and> s' = s1) \<or>
            (\<exists>n v rest. res = (n, v) # rest \<and> write_back_first n v s1 = Inr s'))"
proof (cases "units_tick [0 ..< length (functional_units s)] (s\<lparr>cdb := CommonDataBus_clear\<rparr>)")
  case (Inl e)
  with assms show ?thesis by (simp add: write_back_def FunctionalUnits_tick_def)
next
  case (Inr p)
  obtain s1 res where p: "p = (s1, res)" by (cases p)
  show ?thesis
  proof (cases res)
    case Nil
    with assms Inr p show ?thesis by (simp add: write_back_def FunctionalUnits_tick_def)
  next
    case (Cons x rest)
    obtain n v where x: "x = (n, v)" by (cases x)
    from assms Inr p Cons x show ?thesis by (simp add: write_back_def FunctionalUnits_tick_def)
  qed
qed

lemma tick_phases:
  assumes "tick s = Inr (s', b)"
  shows "\<exists>m s1 s2 b'. write_back (s\<lparr>cycle := cycle s + 1, metrics := m\<rparr>) = Inr s1 \<and>
           execute s1 = Inr s2 \<and> issue s2 = Inr (s', b')"
proof -
  let ?m = "update_ls_buffer_utilization
              (update_rs_occupancy ((metrics s)\<lparr>total_cycles := cycle s + 1\<rparr>)
                 (reservation_stations s)) (reservation_stations s)"
  let ?s0 = "s\<lparr>cycle := cycle s + 1, metrics := ?m\<rparr>"
  from assms obtain s1 where w: "write_back ?s0 = Inr s1"
    by (cases "write_back ?s0") (simp_all add: tick_def Let_def)
  with assms obtain s2 where e: "execute s1 = Inr s2"
    by (cases "execute s1") (simp_all add: tick_def Let_def)
  with assms w obtain p where i: "issue s2 = Inr p"
    by (cases "issue s2") (simp_all add: tick_def Let_def)
  obtain s3 b' where p: "p = (s3, b')" by (cases p)
  from assms w e i p have "s3 = s'" by (simp add: tick_def Let_def)
  with w e i p show ?thesis by blast
qed

lemma tag_inv_frame:
  assumes "tag_inv s" and "map ident (reservation_stations s') = map ident (reservation_stations s)"
    and "status (register_file s') = status (register_file s)"
  shows "tag_inv s'"
proof (rule tag_invI)
  from assms(2) have len: "length (reservation_stations s') = length (reservation_stations s)"
    by (rule map_eq_imp_length_eq)
  from tag_inv_names [OF assms(1)] map_ident_names [OF assms(2)]
  show "map name (reservation_stations s') = station_names" by simp
  from tag_inv_status_length [OF assms(1)] assms(3)
  show "length (status (register_file s')) = NUM_REGISTERS" by simp
  fix r t
  assume "r < length (status (register_file s'))" "status (register_file s') ! r = Some t"
  with assms(3) have "r < length (status (register_file s))"
    "status (register_file s) ! r = Some t" by simp_all
  from tag_invD [OF assms(1) this] obtain i where i: "i < length (reservation_stations s)"
    "produces (ident (reservation_stations s ! i)) t r" by blast
  from map_ident_nth [OF assms(2) i(1)] i len
  show "\<exists>i < length (reservation_stations s'). produces (ident (reservation_stations s' ! i)) t r"
    by auto
qed

lemma tag_inv_units_tick:
  assumes "units_tick us s = Inr (s1, res)" and "tag_inv s"
  shows "tag_inv s1"
proof -
  from units_tick_frame [OF assms(1)]
  have a: "map core (reservation_stations s1) = map core (reservation_stations s)"
    and b: "status (register_file s1) = status (register_file s)" by simp_all
  from assms(2) map_core_ident [OF a] b show ?thesis by (rule tag_inv_frame)
qed

lemma tag_inv_length: "tag_inv s \<Longrightarrow> length (reservation_stations s) = 9"
proof -
  assume "tag_inv s"
  from tag_inv_names [OF this]
  have "length (map name (reservation_stations s)) = length station_names" by simp
  then show ?thesis by (simp add: station_names_def)
qed

lemma distinct_station_names: "distinct station_names"
  by (simp add: station_names_def)

lemma tag_inv_execute_station:
  assumes "execute_station r s = Inr s'" and "r < 9" and "tag_inv s"
  shows "tag_inv s'"
proof -
  from assms(2,3) have r: "r < length (reservation_stations s)" by (simp add: tag_inv_length)
  from execute_station_effect [OF assms(1) r]
  have "map ident (reservation_stations s') = map ident (reservation_stations s)"
    "status (register_file s') = status (register_file s)"
    by (auto simp: map_update_same)
  with assms(3) show ?thesis by (rule tag_inv_frame)
qed

lemma tag_inv_execute_loop:
  "execute_loop rs s = Inr s' \<Longrightarrow> \<forall>r \<in> set rs. r < 9 \<Longrightarrow> tag_inv s \<Longrightarrow> tag_inv s'"
proof (induction rs arbitrary: s)
  case Nil
  then show ?case by simp
next
  case (Cons r rs)
  from Cons.prems(1) obtain s1 where a: "execute_station r s = Inr s1"
    and b: "execute_loop rs s1 = Inr s'"
    by (auto split: sum.splits)
  from Cons.prems(2) have "r < 9" by simp
  from tag_inv_execute_station [OF a this Cons.prems(3)] have "tag_inv s1" .
  with Cons.IH [OF b] Cons.prems(2) show ?case by simp
qed

lemma tag_inv_execute:
  assumes "execute s = Inr s'" and "tag_inv s"
  shows "tag_inv s'"
  using assms tag_inv_execute_loop [of "[0 ..< length (reservation_stations s)]" s s']
  by (simp add: execute_def tag_inv_length)

lemma nth_update_from_cdb:
  "i < length sts \<Longrightarrow> update_from_cdb sts n v ! i = update_station_from_cdb n v (sts ! i)"
  by (simp add: update_from_cdb_def)

lemma write_back_first_Some:
  assumes "write_back_first n v s = Inr s'"
    and "get_station_by_name (reservation_stations s) n = Some r"
  shows "\<exists>k. instruction (reservation_stations s ! r) = Some k \<and>
             instructions s' = (instructions s)
               [k := (instructions s ! k)\<lparr>execute_complete_cycle := Some (cycle s),
                                           write_result_cycle := Some (cycle s)\<rparr>] \<and>
             reservation_stations s' = (update_from_cdb (reservation_stations s) n v)
               [r := clear (update_from_cdb (reservation_stations s) n v ! r)] \<and>
             (if op_rs (reservation_stations s ! r) \<in>
                   {Some ADD, Some SUB, Some MUL, Some DIV, Some LOAD}
              then \<exists>d. get_register_index (dest_rs (reservation_stations s ! r)) = Inr d \<and>
                     d < length (status (register_file s)) \<and>
                     status (register_file s') =
                       (if status (register_file s) ! d = Some n
                        then (status (register_file s))[d := None]
                        else status (register_file s))
              else register_file s' = register_file s)"
  using write_back_first_effect [OF assms(1)] assms(2) by simp

lemma write_back_first_None:
  assumes "write_back_first n v s = Inr s'"
    and "get_station_by_name (reservation_stations s) n = None"
  shows "reservation_stations s' = reservation_stations s \<and>
         register_file s' = register_file s \<and> instructions s' = instructions s"
  using write_back_first_effect [OF assms(1)] assms(2) by simp

lemma tag_inv_write_back_first:
  assumes w: "write_back_first n v s = Inr s'" and inv: "tag_inv s"
  shows "tag_inv s'"
proof (cases "get_station_by_name (reservation_stations s) n")
  case None
  from write_back_first_None [OF w None]
  have "map ident (reservation_stations s') = map ident (reservation_stations s)"
    "status (register_file s') = status (register_file s)" by simp_all
  with inv show ?thesis by (rule tag_inv_frame)
next
  case (Some r)
  let ?sts = "reservation_stations s" and ?st = "status (register_file s)"
  let ?u = "update_from_cdb ?sts n v"
  from get_station_by_name_Some [OF Some] have r: "r < length ?sts" "name (?sts ! r) = n"
    by simp_all
  from write_back_first_Some [OF w Some]
  have sts': "reservation_stations s' = ?u[r := clear (?u ! r)]"
    and st': "if op_rs (?sts ! r) \<in> {Some ADD, Some SUB, Some MUL, Some DIV, Some LOAD}
              then \<exists>d. get_register_index (dest_rs (?sts ! r)) = Inr d \<and> d < length ?st \<and>
                     status (register_file s') =
                       (if ?st ! d = Some n then ?st[d := None] else ?st)
              else register_file s' = register_file s"
    by blast+
  have lenu: "length ?u = length ?sts" by (simp add: update_from_cdb_def)
  have other: "ident (reservation_stations s' ! i) = ident (?sts ! i)"
    if "i < length ?sts" "i \<noteq> r" for i
    using that sts' lenu by (simp add: nth_update_from_cdb update_station_from_cdb_fields)
  have nmr: "name (reservation_stations s' ! r) = name (?sts ! r)"
    using sts' lenu r(1) update_station_from_cdb_fields(1) [of n v "?sts ! r"]
    by (simp add: nth_update_from_cdb clear_def ident_def)
  have "map name (reservation_stations s') = map name ?sts"
  proof (rule nth_equalityI)
    show "length (map name (reservation_stations s')) = length (map name ?sts)"
      using sts' lenu by simp
  next
    fix i assume "i < length (map name (reservation_stations s'))"
    then have i: "i < length ?sts" using sts' lenu by simp
    show "map name (reservation_stations s') ! i = map name ?sts ! i"
    proof (cases "i = r")
      case True
      with i nmr sts' lenu show ?thesis by simp
    next
      case False
      from other [OF i False] i sts' lenu show ?thesis by (simp add: ident_def)
    qed
  qed
  with tag_inv_names [OF inv] have nm: "map name (reservation_stations s') = station_names"
    by simp
  from st' have stl: "length (status (register_file s')) = length ?st"
    by (auto split: if_splits)
  have keep: "?st ! r0 = Some t"
    if "r0 < length ?st" "status (register_file s') ! r0 = Some t" for r0 t
    using st' that by (auto split: if_splits simp: nth_list_update)
  have "\<exists>i < length (reservation_stations s'). produces (ident (reservation_stations s' ! i)) t r0"
    if a: "r0 < length (status (register_file s'))" and b: "status (register_file s') ! r0 = Some t"
    for r0 t
  proof -
    from a stl have r0: "r0 < length ?st" by simp
    from keep [OF r0 b] have old: "?st ! r0 = Some t" .
    from tag_invD [OF inv r0 old] obtain i where i: "i < length ?sts"
      "produces (ident (?sts ! i)) t r0" by blast
    have "i \<noteq> r"
    proof
      assume "i = r"
      with i r have p: "t = n" "get_register_index (dest_rs (?sts ! r)) = Inr r0"
        "op_rs (?sts ! r) \<in> {Some ADD, Some SUB, Some MUL, Some DIV, Some LOAD}"
        by (auto simp: produces_def ident_def)
      with st' old r0 have "status (register_file s') = ?st[r0 := None]" by auto
      with r0 b show False by simp
    qed
    from other [OF i(1) this] i sts' lenu show ?thesis by auto
  qed
  with nm stl tag_inv_status_length [OF inv] show ?thesis by (intro tag_invI) simp_all
qed

lemma tag_inv_cdb: "tag_inv (s\<lparr>cdb := c\<rparr>) = tag_inv s"
  by (simp add: tag_inv_def)

lemma tag_inv_cycle_metrics: "tag_inv (s\<lparr>cycle := c, metrics := m\<rparr>) = tag_inv s"
  by (simp add: tag_inv_def)

lemma tag_inv_write_back:
  assumes "write_back s = Inr s'" and "tag_inv s"
  shows "tag_inv s'"
proof -
  from assms(2) have c: "tag_inv (s\<lparr>cdb := CommonDataBus_clear\<rparr>)" by (simp add: tag_inv_cdb)
  from write_back_cases [OF assms(1)] obtain s1 res where
    t: "units_tick [0 ..< length (functional_units s)] (s\<lparr>cdb := CommonDataBus_clear\<rparr>) = Inr (s1, res)"
    and f: "(res = [] \<and> s' = s1) \<or> (\<exists>n v rest. res = (n, v) # rest \<and> write_back_first n v s1 = Inr s')"
    by blast
  from tag_inv_units_tick [OF t c] have "tag_inv s1" .
  with f show ?thesis by (auto intro: tag_inv_write_back_first)
qed

lemma tag_inv_issue:
  assumes i: "issue s = Inr (s', b)" and inv: "tag_inv s"
  shows "tag_inv s'"
proof (cases b)
  case False
  with issue_effect [OF i]
  have "reservation_stations s' = reservation_stations s" "register_file s' = register_file s"
    by auto
  with inv show ?thesis by (simp add: tag_inv_frame)
next
  case True
  let ?sts = "reservation_stations s" and ?st = "status (register_file s)"
  let ?i = "instructions s ! pc s"
  from issue_effect [OF i] True obtain r rs' where r: "r < 9" "\<not> busy (?sts ! r)"
    and sts': "reservation_stations s' = ?sts[r := rs']"
    and rs': "name rs' = name (?sts ! r)" "busy rs'" "op_rs rs' = Some (op ?i)"
    and st': "if op ?i = STORE then register_file s' = register_file s
              else dest_rs rs' = dest ?i \<and>
                   (\<exists>d. get_register_index (dest ?i) = Inr d \<and> d < length ?st \<and>
                        status (register_file s') = ?st[d := Some (name (?sts ! r))])"
    by auto
  from r(1) inv have rl: "r < length ?sts" by (simp add: tag_inv_length)
  have "map name (reservation_stations s') = map name ?sts"
    using sts' rs'(1) by (simp add: map_update_same)
  with tag_inv_names [OF inv] have nm: "map name (reservation_stations s') = station_names"
    by simp
  from st' have stl: "length (status (register_file s')) = length ?st"
    by (auto split: if_splits)
  have "\<exists>i < length (reservation_stations s'). produces (ident (reservation_stations s' ! i)) t r0"
    if a: "r0 < length (status (register_file s'))" and b: "status (register_file s') ! r0 = Some t"
    for r0 t
  proof -
    from a stl have r0: "r0 < length ?st" by simp
    show ?thesis
    proof (cases "?st ! r0 = Some t \<and> status (register_file s') ! r0 = ?st ! r0")
      case True
      then have "?st ! r0 = Some t" by simp
      from tag_invD [OF inv r0 this] obtain j where j: "j < length ?sts"
        "produces (ident (?sts ! j)) t r0" by blast
      from j(2) r(2) have "j \<noteq> r" by (auto simp: produces_def ident_def)
      with j sts' show ?thesis by auto
    next
      case False
      with st' b r0 obtain d where ns: "op ?i \<noteq> STORE" and dd: "dest_rs rs' = dest ?i"
        and d: "get_register_index (dest ?i) = Inr d" "d < length ?st"
        "status (register_file s') = ?st[d := Some (name (?sts ! r))]"
        by (auto split: if_splits)
      from False d b r0 have e: "r0 = d" "t = name (?sts ! r)"
        by (auto simp: nth_list_update split: if_splits)
      from ns have "Some (op ?i) \<in> {Some ADD, Some SUB, Some MUL, Some DIV, Some LOAD}"
        by (cases "op ?i") auto
      with e d dd rs' have "produces (ident rs') t r0" by (simp add: produces_def ident_def)
      with sts' rl show ?thesis by auto
    qed
  qed
  with nm stl tag_inv_status_length [OF inv] show ?thesis by (intro tag_invI) simp_all
qed

lemma tag_inv_tick:
  assumes "tick s = Inr (s', b)" and "tag_inv s"
  shows "tag_inv s'"
proof -
  from tick_phases [OF assms(1)] obtain m s1 s2 b' where
    w: "write_back (s\<lparr>cycle := cycle s + 1, metrics := m\<rparr>) = Inr s1"
    and e: "execute s1 = Inr s2" and i: "issue s2 = Inr (s', b')"
    by blast
  from assms(2) have "tag_inv (s\<lparr>cycle := cycle s + 1, metrics := m\<rparr>)"
    by (simp add: tag_inv_cycle_metrics)
  from tag_inv_issue [OF i tag_inv_execute [OF e tag_inv_write_back [OF w this]]]
  show ?thesis .
qed

lemma tag_inv_ticks: "ticks n s = Inr s' \<Longrightarrow> tag_inv s \<Longrightarrow> tag_inv s'"
proof (induction n arbitrary: s)
  case 0
  then show ?case by simp
next
  case (Suc n)
  from Suc.prems(1) obtain s1 b where a: "tick s = Inr (s1, b)" and c: "ticks n s1 = Inr s'"
    by (auto split: sum.splits)
  from Suc.IH [OF c tag_inv_tick [OF a Suc.prems(2)]] show ?case .
qed

lemma tag_inv_init: "tag_inv (Simulator_init regs prog)"
  by (simp add: tag_inv_def Simulator_init_def ReservationStations_init_def
        ReservationStation_init_def station_names_def RegisterFile_init_def NUM_REGISTERS_def)

text \<open>
  Claim C1, amended. In every state reached by ticks from the initial state, whenever the
  status of register \<open>r\<close> is a tag \<open>t\<close>, the station named \<open>t\<close> (there is exactly one
  station of that name) is busy and has destination \<open>r\<close>. The converse, and "exactly one
  busy station with destination \<open>r\<close>", do not hold: see \<open>status_not_iff_one_producer\<close>.
\<close>

theorem status_tag_names_busy_producer:
  assumes "ticks n (Simulator_init regs prog) = Inr s"
    and "r < NUM_REGISTERS"
    and "status (register_file s) ! r = Some t"
  shows "\<exists>i < length (reservation_stations s).
           name (reservation_stations s ! i) = t \<and> busy (reservation_stations s ! i) \<and>
           get_register_index (dest_rs (reservation_stations s ! i)) = Inr r \<and>
           (\<forall>j < length (reservation_stations s).
              name (reservation_stations s ! j) = t \<longrightarrow> j = i)"
proof -
  from tag_inv_ticks [OF assms(1) tag_inv_init] have inv: "tag_inv s" .
  from assms(2) tag_inv_status_length [OF inv]
  have "r < length (status (register_file s))" by simp
  from tag_invD [OF inv this assms(3)] obtain i where i: "i < length (reservation_stations s)"
    "produces (ident (reservation_stations s ! i)) t r"
    by blast
  from tag_inv_names [OF inv] have "distinct (map name (reservation_stations s))"
    by (simp add: distinct_station_names)
  then have "j = i" if "j < length (reservation_stations s)"
    "name (reservation_stations s ! j) = t" for j
    using that i by (auto simp: distinct_conv_nth produces_def ident_def)
  with i show ?thesis by (auto simp: produces_def ident_def)
qed

theorem status_tag_names_busy_producer_witness:
  "\<exists>s. ticks 2 (Simulator_init regs0 prog_waw) = Inr s \<and> (1::nat) < NUM_REGISTERS \<and>
       status (register_file s) ! 1 = Some ''ALU2'' \<and>
       (\<exists>i < length (reservation_stations s).
           name (reservation_stations s ! i) = ''ALU2'' \<and> busy (reservation_stations s ! i) \<and>
           get_register_index (dest_rs (reservation_stations s ! i)) = Inr 1 \<and>
           (\<forall>j < length (reservation_stations s).
              name (reservation_stations s ! j) = ''ALU2'' \<longrightarrow> j = i))"
proof -
  have "case ticks 2 (Simulator_init regs0 prog_waw) of
          Inr s \<Rightarrow> status (register_file s) ! 1 = Some ''ALU2''
        | Inl _ \<Rightarrow> False"
    by code_simp
  then obtain s where s: "ticks 2 (Simulator_init regs0 prog_waw) = Inr s"
    and h: "status (register_file s) ! 1 = Some ''ALU2''"
    by (auto split: sum.splits)
  have n: "(1::nat) < NUM_REGISTERS" by (simp add: NUM_REGISTERS_def)
  from status_tag_names_busy_producer [OF s n h] s n h show ?thesis by blast
qed

text \<open>
  Claim C1 as stated fails after the second tick of \<open>ADD R1, R2, R3; ADD R1, R2, R3\<close>:
  the status of R1 is the tag \<open>ALU2\<close> while two busy stations, \<open>ALU1\<close> and \<open>ALU2\<close>, have
  R1 as destination.
\<close>

theorem status_not_iff_one_producer:
  "after 2 (Simulator_init regs0 prog_waw) (Not \<circ> status_iff_one_producer)"
  by code_simp

subsection \<open>Timestamps are kept\<close>

lemma stamp_invI:
  assumes "pc s \<le> length (instructions s)"
    and "\<And>k. pc s \<le> k \<Longrightarrow> k < length (instructions s) \<Longrightarrow>
             stamps (instructions s ! k) = (None, None, None)"
    and "\<And>i k. i < length (reservation_stations s) \<Longrightarrow>
             instruction (reservation_stations s ! i) = Some k \<Longrightarrow>
             k < pc s \<and> snd (stamps (instructions s ! k)) = (None, None)"
    and "\<And>i j k. i < length (reservation_stations s) \<Longrightarrow>
             j < length (reservation_stations s) \<Longrightarrow>
             instruction (reservation_stations s ! i) = Some k \<Longrightarrow>
             instruction (reservation_stations s ! j) = Some k \<Longrightarrow> i = j"
  shows "stamp_inv s"
  unfolding stamp_inv_def using assms by blast

lemma stamp_inv_unissued:
  "stamp_inv s \<Longrightarrow> pc s \<le> k \<Longrightarrow> k < length (instructions s) \<Longrightarrow>
     stamps (instructions s ! k) = (None, None, None)"
  unfolding stamp_inv_def by blast

lemma stamp_inv_held:
  "stamp_inv s \<Longrightarrow> i < length (reservation_stations s) \<Longrightarrow>
     instruction (reservation_stations s ! i) = Some k \<Longrightarrow>
     k < pc s \<and> snd (stamps (instructions s ! k)) = (None, None)"
  unfolding stamp_inv_def by blast

lemma stamp_inv_pc: "stamp_inv s \<Longrightarrow> pc s \<le> length (instructions s)"
  unfolding stamp_inv_def by blast

lemma stamp_inv_unique:
  "stamp_inv s \<Longrightarrow> i < length (reservation_stations s) \<Longrightarrow>
     j < length (reservation_stations s) \<Longrightarrow>
     instruction (reservation_stations s ! i) = Some k \<Longrightarrow>
     instruction (reservation_stations s ! j) = Some k \<Longrightarrow> i = j"
  unfolding stamp_inv_def by blast

lemma kept_refl: "kept a a"
  by (simp add: kept_def)

lemma kept_trans: "kept a b \<Longrightarrow> kept b c \<Longrightarrow> kept a c"
  by (auto simp: kept_def)

lemma stamps_kept_trans:
  assumes "stamps_kept a b" and "stamps_kept b c"
  shows "stamps_kept a c"
  unfolding stamps_kept_def
proof (intro conjI allI impI)
  from assms show "length c = length a" by (simp add: stamps_kept_def)
next
  fix k assume k: "k < length a"
  with assms have kb: "k < length b" by (simp add: stamps_kept_def)
  from assms(1) k have
    "kept (issue_cycle (a ! k)) (issue_cycle (b ! k))"
    "kept (execute_complete_cycle (a ! k)) (execute_complete_cycle (b ! k))"
    "kept (write_result_cycle (a ! k)) (write_result_cycle (b ! k))"
    by (simp_all add: stamps_kept_def)
  moreover from assms(2) kb have
    "kept (issue_cycle (b ! k)) (issue_cycle (c ! k))"
    "kept (execute_complete_cycle (b ! k)) (execute_complete_cycle (c ! k))"
    "kept (write_result_cycle (b ! k)) (write_result_cycle (c ! k))"
    by (simp_all add: stamps_kept_def)
  ultimately show "kept (issue_cycle (a ! k)) (issue_cycle (c ! k))"
    "kept (execute_complete_cycle (a ! k)) (execute_complete_cycle (c ! k))"
    "kept (write_result_cycle (a ! k)) (write_result_cycle (c ! k))"
    by (blast intro: kept_trans)+
qed

lemma stamps_eq_fields:
  "stamps a = stamps b \<Longrightarrow>
     issue_cycle a = issue_cycle b \<and> execute_complete_cycle a = execute_complete_cycle b \<and>
     write_result_cycle a = write_result_cycle b"
  by (simp add: stamps_def)

lemma map_stamps_nth:
  "map stamps a = map stamps b \<Longrightarrow> k < length b \<Longrightarrow> stamps (a ! k) = stamps (b ! k)"
  by (metis length_map nth_map)

lemma stamps_kept_same:
  assumes "map stamps b = map stamps a"
  shows "stamps_kept a b"
  unfolding stamps_kept_def
proof (intro conjI allI impI)
  from assms show "length b = length a" by (rule map_eq_imp_length_eq)
next
  fix k assume "k < length a"
  from stamps_eq_fields [OF map_stamps_nth [OF assms this]]
  show "kept (issue_cycle (a ! k)) (issue_cycle (b ! k))"
    "kept (execute_complete_cycle (a ! k)) (execute_complete_cycle (b ! k))"
    "kept (write_result_cycle (a ! k)) (write_result_cycle (b ! k))"
    by (simp_all add: kept_def)
qed

lemma ident_instruction: "ident a = ident b \<Longrightarrow> instruction a = instruction b"
  by (simp add: ident_def)

lemma stamp_inv_frame:
  assumes inv: "stamp_inv s"
    and id: "map ident (reservation_stations s') = map ident (reservation_stations s)"
    and pc: "pc s' = pc s"
    and st: "map stamps (instructions s') = map stamps (instructions s)"
  shows "stamp_inv s'"
proof (rule stamp_invI)
  from id have len: "length (reservation_stations s') = length (reservation_stations s)"
    by (rule map_eq_imp_length_eq)
  from st have leni: "length (instructions s') = length (instructions s)"
    by (rule map_eq_imp_length_eq)
  have ins: "instruction (reservation_stations s' ! i) = instruction (reservation_stations s ! i)"
    if "i < length (reservation_stations s)" for i
    using map_ident_nth [OF id that] by (rule ident_instruction)
  from stamp_inv_pc [OF inv] pc leni show "pc s' \<le> length (instructions s')" by simp
  {
    fix k assume "pc s' \<le> k" "k < length (instructions s')"
    with pc leni have k: "pc s \<le> k" "k < length (instructions s)" by simp_all
    from stamp_inv_unissued [OF inv k] map_stamps_nth [OF st k(2)]
    show "stamps (instructions s' ! k) = (None, None, None)" by simp
  next
    fix i k assume "i < length (reservation_stations s')"
      "instruction (reservation_stations s' ! i) = Some k"
    with len ins have i: "i < length (reservation_stations s)"
      "instruction (reservation_stations s ! i) = Some k" by simp_all
    from stamp_inv_held [OF inv i] have h: "k < pc s"
      "snd (stamps (instructions s ! k)) = (None, None)" by simp_all
    from h(1) stamp_inv_pc [OF inv] have "k < length (instructions s)" by simp
    from map_stamps_nth [OF st this] h pc
    show "k < pc s' \<and> snd (stamps (instructions s' ! k)) = (None, None)" by simp
  next
    fix i j k assume "i < length (reservation_stations s')" "j < length (reservation_stations s')"
      "instruction (reservation_stations s' ! i) = Some k"
      "instruction (reservation_stations s' ! j) = Some k"
    with len ins have "i < length (reservation_stations s)" "j < length (reservation_stations s)"
      "instruction (reservation_stations s ! i) = Some k"
      "instruction (reservation_stations s ! j) = Some k" by simp_all
    from stamp_inv_unique [OF inv this] show "i = j" .
  }
qed

lemma stamp_units_tick:
  assumes "units_tick us s = Inr (s1, res)" and "stamp_inv s"
  shows "stamp_inv s1 \<and> instructions s1 = instructions s"
proof -
  from units_tick_frame [OF assms(1)]
  have a: "map core (reservation_stations s1) = map core (reservation_stations s)"
    and b: "pc s1 = pc s" and c: "instructions s1 = instructions s" by simp_all
  from c have "map stamps (instructions s1) = map stamps (instructions s)" by simp
  from stamp_inv_frame [OF assms(2) map_core_ident [OF a] b this] c show ?thesis by simp
qed

lemma execute_station_length:
  assumes "execute_station r s = Inr s'" and "r < length (reservation_stations s)"
  shows "length (reservation_stations s') = length (reservation_stations s)"
  using execute_station_effect [OF assms] by auto

lemma stamp_execute_station:
  assumes "execute_station r s = Inr s'" and "r < length (reservation_stations s)"
    and "stamp_inv s"
  shows "stamp_inv s' \<and> stamps_kept (instructions s) (instructions s')"
proof -
  from execute_station_effect [OF assms(1,2)]
  have a: "map ident (reservation_stations s') = map ident (reservation_stations s)"
    and b: "pc s' = pc s"
    and c: "map stamps (instructions s') = map stamps (instructions s)"
    by (auto simp: map_update_same)
  from stamp_inv_frame [OF assms(3) a b c] stamps_kept_same [OF c] show ?thesis by simp
qed

lemma stamp_execute_loop:
  "execute_loop rs s = Inr s' \<Longrightarrow> \<forall>r \<in> set rs. r < length (reservation_stations s) \<Longrightarrow>
     stamp_inv s \<Longrightarrow> stamp_inv s' \<and> stamps_kept (instructions s) (instructions s')"
proof (induction rs arbitrary: s)
  case Nil
  then show ?case by (simp add: stamps_kept_same)
next
  case (Cons r rs)
  from Cons.prems(1) obtain s1 where a: "execute_station r s = Inr s1"
    and b: "execute_loop rs s1 = Inr s'"
    by (auto split: sum.splits)
  from Cons.prems(2) have r: "r < length (reservation_stations s)" by simp
  from stamp_execute_station [OF a r Cons.prems(3)]
  have c: "stamp_inv s1" "stamps_kept (instructions s) (instructions s1)" by simp_all
  from execute_station_length [OF a r] Cons.prems(2)
  have "\<forall>r \<in> set rs. r < length (reservation_stations s1)" by simp
  from Cons.IH [OF b this c(1)] c(2) show ?case by (blast intro: stamps_kept_trans)
qed

lemma stamp_execute:
  assumes "execute s = Inr s'" and "stamp_inv s"
  shows "stamp_inv s' \<and> stamps_kept (instructions s) (instructions s')"
  using assms stamp_execute_loop [of "[0 ..< length (reservation_stations s)]" s s']
  by (simp add: execute_def)

lemma stamps_kept_update:
  assumes "kept (issue_cycle (is ! k)) (issue_cycle x)"
    and "kept (execute_complete_cycle (is ! k)) (execute_complete_cycle x)"
    and "kept (write_result_cycle (is ! k)) (write_result_cycle x)"
  shows "stamps_kept is (is[k := x])"
  unfolding stamps_kept_def
proof (intro conjI allI impI)
  show "length (is[k := x]) = length is" by simp
next
  fix j assume j: "j < length is"
  have "kept (issue_cycle (is ! j)) (issue_cycle (is[k := x] ! j)) \<and>
    kept (execute_complete_cycle (is ! j)) (execute_complete_cycle (is[k := x] ! j)) \<and>
    kept (write_result_cycle (is ! j)) (write_result_cycle (is[k := x] ! j))"
  proof (cases "j = k")
    case True
    with j assms show ?thesis by simp
  next
    case False
    then show ?thesis by (simp add: kept_refl)
  qed
  then show "kept (issue_cycle (is ! j)) (issue_cycle (is[k := x] ! j))"
    "kept (execute_complete_cycle (is ! j)) (execute_complete_cycle (is[k := x] ! j))"
    "kept (write_result_cycle (is ! j)) (write_result_cycle (is[k := x] ! j))"
    by simp_all
qed

lemma stamp_write_back_first:
  assumes w: "write_back_first n v s = Inr s'" and inv: "stamp_inv s"
  shows "stamp_inv s' \<and> stamps_kept (instructions s) (instructions s')"
proof (cases "get_station_by_name (reservation_stations s) n")
  case None
  from write_back_first_None [OF w None] write_back_first_effect [OF w]
  have a: "map ident (reservation_stations s') = map ident (reservation_stations s)"
    and b: "pc s' = pc s"
    and c: "map stamps (instructions s') = map stamps (instructions s)" by simp_all
  from stamp_inv_frame [OF inv a b c] stamps_kept_same [OF c] show ?thesis by simp
next
  case (Some r)
  let ?sts = "reservation_stations s" and ?is = "instructions s"
  let ?u = "update_from_cdb ?sts n v"
  from get_station_by_name_Some [OF Some] have r: "r < length ?sts" by simp
  from write_back_first_Some [OF w Some] obtain k where k: "instruction (?sts ! r) = Some k"
    and is': "instructions s' = ?is[k := (?is ! k)\<lparr>execute_complete_cycle := Some (cycle s),
                                                  write_result_cycle := Some (cycle s)\<rparr>]"
    and sts': "reservation_stations s' = ?u[r := clear (?u ! r)]"
    by blast
  from write_back_first_effect [OF w] have pc: "pc s' = pc s" by simp
  have lenu: "length ?u = length ?sts" by (simp add: update_from_cdb_def)
  from stamp_inv_held [OF inv r k] have hk: "k < pc s" "snd (stamps (?is ! k)) = (None, None)"
    by simp_all
  have ins: "instruction (reservation_stations s' ! i) =
               (if i = r then None else instruction (?sts ! i))"
    if "i < length ?sts" for i
    using that sts' lenu update_station_from_cdb_fields(1) [of n v "?sts ! i"]
    by (simp add: nth_list_update nth_update_from_cdb clear_def ident_def)
  have kept: "stamps_kept ?is (instructions s')"
    unfolding is' using hk(2)
    by (intro stamps_kept_update) (simp_all add: kept_def stamps_def)
  have "stamp_inv s'"
  proof (rule stamp_invI)
    from stamp_inv_pc [OF inv] pc is' show "pc s' \<le> length (instructions s')" by simp
  next
    fix k0 assume "pc s' \<le> k0" "k0 < length (instructions s')"
    with pc is' have k0: "pc s \<le> k0" "k0 < length ?is" by simp_all
    with hk(1) have "k0 \<noteq> k" by simp
    with stamp_inv_unissued [OF inv k0] is'
    show "stamps (instructions s' ! k0) = (None, None, None)" by simp
  next
    fix i k' assume "i < length (reservation_stations s')"
      "instruction (reservation_stations s' ! i) = Some k'"
    with sts' lenu ins [of i] have i: "i < length ?sts" "i \<noteq> r"
      "instruction (?sts ! i) = Some k'" by (auto split: if_splits)
    from stamp_inv_held [OF inv i(1,3)] have h: "k' < pc s"
      "snd (stamps (?is ! k')) = (None, None)" by simp_all
    from stamp_inv_unique [OF inv i(1) r i(3)] i(2) k have "k' \<noteq> k" by auto
    with h pc is' show "k' < pc s' \<and> snd (stamps (instructions s' ! k')) = (None, None)"
      by simp
  next
    fix i j k' assume "i < length (reservation_stations s')"
      "j < length (reservation_stations s')"
      "instruction (reservation_stations s' ! i) = Some k'"
      "instruction (reservation_stations s' ! j) = Some k'"
    with sts' lenu ins [of i] ins [of j]
    have "i < length ?sts" "j < length ?sts" "instruction (?sts ! i) = Some k'"
      "instruction (?sts ! j) = Some k'" by (auto split: if_splits)
    from stamp_inv_unique [OF inv this] show "i = j" .
  qed
  with kept show ?thesis by simp
qed

lemma stamp_inv_cdb: "stamp_inv (s\<lparr>cdb := c\<rparr>) = stamp_inv s"
  by (simp add: stamp_inv_def)

lemma stamp_inv_cycle_metrics: "stamp_inv (s\<lparr>cycle := c, metrics := m\<rparr>) = stamp_inv s"
  by (simp add: stamp_inv_def)

lemma stamp_write_back:
  assumes "write_back s = Inr s'" and "stamp_inv s"
  shows "stamp_inv s' \<and> stamps_kept (instructions s) (instructions s')"
proof -
  from assms(2) have c: "stamp_inv (s\<lparr>cdb := CommonDataBus_clear\<rparr>)" by (simp add: stamp_inv_cdb)
  from write_back_cases [OF assms(1)] obtain s1 res where
    t: "units_tick [0 ..< length (functional_units s)] (s\<lparr>cdb := CommonDataBus_clear\<rparr>) = Inr (s1, res)"
    and f: "(res = [] \<and> s' = s1) \<or> (\<exists>n v rest. res = (n, v) # rest \<and> write_back_first n v s1 = Inr s')"
    by blast
  from stamp_units_tick [OF t c] have s1: "stamp_inv s1" "instructions s1 = instructions s"
    by simp_all
  from f show ?thesis
  proof
    assume "res = [] \<and> s' = s1"
    with s1 show ?thesis by (simp add: stamps_kept_same)
  next
    assume "\<exists>n v rest. res = (n, v) # rest \<and> write_back_first n v s1 = Inr s'"
    then obtain n v where "write_back_first n v s1 = Inr s'" by blast
    from stamp_write_back_first [OF this s1(1)] s1(2) show ?thesis by simp
  qed
qed

lemma stamps_issue_cycle: "snd (stamps (i\<lparr>issue_cycle := c\<rparr>)) = snd (stamps i)"
  by (simp add: stamps_def)

lemma stamp_issue:
  assumes i: "issue s = Inr (s', b)" and inv: "stamp_inv s"
  shows "stamp_inv s' \<and> stamps_kept (instructions s) (instructions s')"
proof (cases b)
  case False
  with issue_effect [OF i]
  have a: "map ident (reservation_stations s') = map ident (reservation_stations s)"
    and b: "pc s' = pc s"
    and c: "map stamps (instructions s') = map stamps (instructions s)" by auto
  from stamp_inv_frame [OF inv a b c] stamps_kept_same [OF c] show ?thesis by simp
next
  case True
  let ?sts = "reservation_stations s" and ?is = "instructions s"
  from issue_effect [OF i] True obtain r rs' where pcl: "pc s < length ?is"
    and pc': "pc s' = pc s + 1"
    and is': "instructions s' = ?is[pc s := (?is ! pc s)\<lparr>issue_cycle := Some (cycle s)\<rparr>]"
    and sts': "reservation_stations s' = ?sts[r := rs']"
    and rs': "instruction rs' = Some (pc s)"
    by auto
  from stamp_inv_unissued [OF inv _ pcl] have un: "stamps (?is ! pc s) = (None, None, None)"
    by simp
  have kept: "stamps_kept ?is (instructions s')"
    unfolding is' using un
    by (intro stamps_kept_update) (simp_all add: kept_def stamps_def)
  have ins: "instruction (reservation_stations s' ! j) =
               (if j = r then Some (pc s) else instruction (?sts ! j))"
    if "j < length ?sts" for j
    using that sts' rs' by (simp add: nth_list_update)
  have "stamp_inv s'"
  proof (rule stamp_invI)
    from pcl pc' is' show "pc s' \<le> length (instructions s')" by simp
  next
    fix k0 assume "pc s' \<le> k0" "k0 < length (instructions s')"
    with pc' is' have k0: "pc s \<le> k0" "k0 < length ?is" "k0 \<noteq> pc s" by simp_all
    with stamp_inv_unissued [OF inv k0(1,2)] is'
    show "stamps (instructions s' ! k0) = (None, None, None)" by simp
  next
    fix j k' assume "j < length (reservation_stations s')"
      "instruction (reservation_stations s' ! j) = Some k'"
    with sts' ins [of j] have j: "j < length ?sts"
      "(if j = r then Some (pc s) else instruction (?sts ! j)) = Some k'" by simp_all
    show "k' < pc s' \<and> snd (stamps (instructions s' ! k')) = (None, None)"
    proof (cases "j = r")
      case True
      with j have "k' = pc s" by simp
      with pc' is' pcl un show ?thesis by (simp add: stamps_issue_cycle)
    next
      case False
      with j have "instruction (?sts ! j) = Some k'" by simp
      from stamp_inv_held [OF inv j(1) this] have "k' < pc s"
        "snd (stamps (?is ! k')) = (None, None)" by simp_all
      with pc' is' show ?thesis by simp
    qed
  next
    fix j1 j2 k' assume "j1 < length (reservation_stations s')"
      "j2 < length (reservation_stations s')"
      "instruction (reservation_stations s' ! j1) = Some k'"
      "instruction (reservation_stations s' ! j2) = Some k'"
    with sts' ins [of j1] ins [of j2] have j: "j1 < length ?sts" "j2 < length ?sts"
      "(if j1 = r then Some (pc s) else instruction (?sts ! j1)) = Some k'"
      "(if j2 = r then Some (pc s) else instruction (?sts ! j2)) = Some k'" by simp_all
    show "j1 = j2"
    proof (cases "j1 = r")
      case True
      note j1r = True
      show ?thesis
      proof (cases "j2 = r")
        case True
        with j1r show ?thesis by simp
      next
        case False
        with j j1r have "k' = pc s" "instruction (?sts ! j2) = Some k'" by simp_all
        with stamp_inv_held [OF inv j(2)] show ?thesis by auto
      qed
    next
      case False
      note j1r = False
      with j have h1: "instruction (?sts ! j1) = Some k'" by simp
      show ?thesis
      proof (cases "j2 = r")
        case True
        with j have "k' = pc s" by simp
        with stamp_inv_held [OF inv j(1) h1] show ?thesis by auto
      next
        case False
        with j have "instruction (?sts ! j2) = Some k'" by simp
        from stamp_inv_unique [OF inv j(1,2) h1 this] show ?thesis .
      qed
    qed
  qed
  with kept show ?thesis by simp
qed

lemma stamp_tick:
  assumes "tick s = Inr (s', b)" and "stamp_inv s"
  shows "stamp_inv s' \<and> stamps_kept (instructions s) (instructions s')"
proof -
  from tick_phases [OF assms(1)] obtain m s1 s2 b' where
    w: "write_back (s\<lparr>cycle := cycle s + 1, metrics := m\<rparr>) = Inr s1"
    and e: "execute s1 = Inr s2" and i: "issue s2 = Inr (s', b')"
    by blast
  from assms(2) have "stamp_inv (s\<lparr>cycle := cycle s + 1, metrics := m\<rparr>)"
    by (simp add: stamp_inv_cycle_metrics)
  from stamp_write_back [OF w this]
  have a: "stamp_inv s1" "stamps_kept (instructions s) (instructions s1)" by simp_all
  from stamp_execute [OF e a(1)]
  have b: "stamp_inv s2" "stamps_kept (instructions s1) (instructions s2)" by simp_all
  from stamp_issue [OF i b(1)]
  have c: "stamp_inv s'" "stamps_kept (instructions s2) (instructions s')" by simp_all
  from a(2) b(2) c show ?thesis by (blast intro: stamps_kept_trans)
qed

lemma stamp_ticks: "ticks n s = Inr s' \<Longrightarrow> stamp_inv s \<Longrightarrow> stamp_inv s'"
proof (induction n arbitrary: s)
  case 0
  then show ?case by simp
next
  case (Suc n)
  from Suc.prems(1) obtain s1 b where a: "tick s = Inr (s1, b)" and c: "ticks n s1 = Inr s'"
    by (auto split: sum.splits)
  from stamp_tick [OF a Suc.prems(2)] have "stamp_inv s1" by simp
  from Suc.IH [OF c this] show ?case .
qed

lemma init_station:
  assumes "i < length (reservation_stations (Simulator_init regs prog))"
  shows "instruction (reservation_stations (Simulator_init regs prog) ! i) = None \<and>
         \<not> busy (reservation_stations (Simulator_init regs prog) ! i) \<and>
         \<not> executing (reservation_stations (Simulator_init regs prog) ! i)"
proof -
  have "\<forall>st \<in> set ReservationStations_init.
          instruction st = None \<and> \<not> busy st \<and> \<not> executing st"
    by (simp add: ReservationStations_init_def ReservationStation_init_def)
  moreover from assms
  have "reservation_stations (Simulator_init regs prog) ! i \<in> set ReservationStations_init"
    by (simp add: Simulator_init_def)
  ultimately show ?thesis by blast
qed

lemma stamp_inv_init:
  assumes "list_all fresh prog"
  shows "stamp_inv (Simulator_init regs prog)"
proof (rule stamp_invI)
  show "pc (Simulator_init regs prog) \<le> length (instructions (Simulator_init regs prog))"
    by (simp add: Simulator_init_def)
next
  fix k assume "k < length (instructions (Simulator_init regs prog))"
  with assms have "fresh (prog ! k)" by (simp add: Simulator_init_def list_all_length)
  then show "stamps (instructions (Simulator_init regs prog) ! k) = (None, None, None)"
    by (simp add: Simulator_init_def fresh_def stamps_def)
next
  fix i k assume "i < length (reservation_stations (Simulator_init regs prog))"
    "instruction (reservation_stations (Simulator_init regs prog) ! i) = Some k"
  with init_station [of i regs prog]
  show "k < pc (Simulator_init regs prog) \<and>
      snd (stamps (instructions (Simulator_init regs prog) ! k)) = (None, None)"
    by simp
next
  fix i j k assume "i < length (reservation_stations (Simulator_init regs prog))"
    "instruction (reservation_stations (Simulator_init regs prog) ! i) = Some k"
  with init_station [of i regs prog] show "i = j" by simp
qed



















subsection \<open>Units and the stations they are bound to\<close>

lemma bind_invI:
  assumes "map name (reservation_stations s) = station_names"
    and "\<And>u. u < length (functional_units s) \<Longrightarrow>
           bound_ok (functional_units s ! u) (reservation_stations s)"
    and "\<And>u w. u < length (functional_units s) \<Longrightarrow> w < length (functional_units s) \<Longrightarrow>
           busy_fu (functional_units s ! u) \<Longrightarrow> busy_fu (functional_units s ! w) \<Longrightarrow>
           reservation_station (functional_units s ! u) =
             reservation_station (functional_units s ! w) \<Longrightarrow> u = w"
  shows "bind_inv s"
  unfolding bind_inv_def using assms by blast

lemma bind_inv_names: "bind_inv s \<Longrightarrow> map name (reservation_stations s) = station_names"
  unfolding bind_inv_def by blast

lemma bind_inv_bound:
  "bind_inv s \<Longrightarrow> u < length (functional_units s) \<Longrightarrow>
     bound_ok (functional_units s ! u) (reservation_stations s)"
  unfolding bind_inv_def by blast

lemma bind_inv_unique:
  "bind_inv s \<Longrightarrow> u < length (functional_units s) \<Longrightarrow> w < length (functional_units s) \<Longrightarrow>
     busy_fu (functional_units s ! u) \<Longrightarrow> busy_fu (functional_units s ! w) \<Longrightarrow>
     reservation_station (functional_units s ! u) =
       reservation_station (functional_units s ! w) \<Longrightarrow> u = w"
  unfolding bind_inv_def by blast

lemma bound_okD:
  "bound_ok fu sts \<Longrightarrow> busy_fu fu \<Longrightarrow>
     \<exists>r < length sts. reservation_station fu = Some r \<and> busy (sts ! r) \<and>
        executing (sts ! r) \<and> qj (sts ! r) = None \<and> qk (sts ! r) = None"
  unfolding bound_ok_def by blast

lemma bound_ok_idle: "\<not> busy_fu fu \<Longrightarrow> bound_ok fu sts"
  unfolding bound_ok_def by blast

lemma bound_okI:
  "r < length sts \<Longrightarrow> reservation_station fu = Some r \<Longrightarrow> busy (sts ! r) \<Longrightarrow>
     executing (sts ! r) \<Longrightarrow> qj (sts ! r) = None \<Longrightarrow> qk (sts ! r) = None \<Longrightarrow>
     bound_ok fu sts"
  unfolding bound_ok_def by blast

lemma core_executing:
  "core x = core y \<Longrightarrow> executing x = executing y \<Longrightarrow>
     busy x = busy y \<and> qj x = qj y \<and> qk x = qk y"
  using core_fields [of x y] by simp

lemma FunctionalUnit_tick_cases:
  assumes "FunctionalUnit_tick u s = Inr (s1, res)"
  shows "(\<not> busy_fu (functional_units s ! u) \<and> s1 = s \<and> res = None) \<or>
         (\<exists>r fu x. busy_fu (functional_units s ! u) \<and>
            reservation_station (functional_units s ! u) = Some r \<and>
            functional_units s1 = (functional_units s)[u := fu] \<and>
            reservation_stations s1 = (reservation_stations s)[r := x] \<and>
            core x = core (reservation_stations s ! r) \<and>
            ((res = None \<and> busy_fu fu \<and> reservation_station fu = Some r \<and>
              executing x = executing (reservation_stations s ! r)) \<or>
             (\<exists>v. res = Some (name (reservation_stations s ! r), v) \<and>
               \<not> busy_fu fu \<and> \<not> executing x)))"
proof (cases "busy_fu (functional_units s ! u)")
  case False
  with assms show ?thesis by (simp add: FunctionalUnit_tick_def Let_def)
next
  case True
  note b = True
  let ?fu = "functional_units s ! u"
  from assms b obtain r where r: "reservation_station ?fu = Some r"
    by (cases "reservation_station ?fu") (simp_all add: FunctionalUnit_tick_def Let_def)
  let ?rs = "reservation_stations s ! r"
  let ?fu1 = "?fu\<lparr>cycles_left := cycles_left ?fu - 1\<rparr>"
  let ?rs1 = "?rs\<lparr>execution_cycles_left := execution_cycles_left ?rs - 1\<rparr>"
  show ?thesis
  proof (cases "cycles_left ?fu - 1 > 0")
    case True
    with assms b r have
      "functional_units s1 = (functional_units s)[u := ?fu1]"
      "reservation_stations s1 = (reservation_stations s)[r := ?rs1]" "res = None"
      by (auto simp: FunctionalUnit_tick_def Let_def)
    moreover have "core ?rs1 = core ?rs" "busy_fu ?fu1" "reservation_station ?fu1 = Some r"
      "executing ?rs1 = executing ?rs"
      using b r by (simp_all add: core_def)
    ultimately show ?thesis using b r by blast
  next
    case False
    let ?fu2 = "?fu1\<lparr>busy_fu := False, reservation_station := None\<rparr>"
    let ?rs2 = "?rs1\<lparr>executing := False\<rparr>"
    from assms b r False obtain v where
      "functional_units s1 = (functional_units s)[u := ?fu2]"
      "reservation_stations s1 = (reservation_stations s)[r := ?rs2]"
      "res = Some (name ?rs, v)"
      by (auto simp: FunctionalUnit_tick_def Let_def split: sum.splits prod.splits)
    moreover have "core ?rs2 = core ?rs" "\<not> busy_fu ?fu2" "\<not> executing ?rs2"
      by (simp_all add: core_def)
    ultimately show ?thesis using b r by blast
  qed
qed

lemma names_nth:
  assumes "map name a = station_names" and "map name b = station_names" and "i < length a"
  shows "name (a ! i) = name (b ! i)"
proof -
  from assms(1,2) have e: "map name a = map name b" by simp
  then have l: "length a = length b" by (rule map_eq_imp_length_eq)
  have "name (a ! i) = map name a ! i" using assms(3) by simp
  also have "\<dots> = map name b ! i" by (simp only: e)
  also have "\<dots> = name (b ! i)" using assms(3) l by simp
  finally show ?thesis .
qed

lemma names_distinct:
  assumes "map name a = station_names" and "i < length a" and "j < length a"
    and "name (a ! i) = name (a ! j)"
  shows "i = j"
proof -
  from assms(1) have "distinct (map name a)" by (simp add: distinct_station_names)
  with assms(2-4) show ?thesis by (auto simp: distinct_conv_nth)
qed

lemma bind_unit_tick:
  assumes t: "FunctionalUnit_tick u s = Inr (s1, res)" and inv: "bind_inv s"
    and u: "u < length (functional_units s)"
  shows "bind_inv s1 \<and>
         (\<forall>i < length (reservation_stations s).
            executing (reservation_stations s1 ! i) \<longrightarrow> executing (reservation_stations s ! i)) \<and>
         (\<forall>n v. res = Some (n, v) \<longrightarrow>
            (\<exists>r < length (reservation_stations s).
               name (reservation_stations s ! r) = n \<and>
               executing (reservation_stations s ! r) \<and> busy (reservation_stations s ! r) \<and>
               qj (reservation_stations s ! r) = None \<and> qk (reservation_stations s ! r) = None \<and>
               \<not> executing (reservation_stations s1 ! r)))"
proof (cases "busy_fu (functional_units s ! u)")
  case False
  with FunctionalUnit_tick_cases [OF t] have "s1 = s" "res = None" by auto
  with inv show ?thesis by simp
next
  case True
  let ?fus = "functional_units s" and ?sts = "reservation_stations s"
  from FunctionalUnit_tick_cases [OF t] True obtain r fu x where
    r: "reservation_station (?fus ! u) = Some r"
    and fus1: "functional_units s1 = ?fus[u := fu]"
    and sts1: "reservation_stations s1 = ?sts[r := x]"
    and cx: "core x = core (?sts ! r)"
    and alt: "(res = None \<and> busy_fu fu \<and> reservation_station fu = Some r \<and>
               executing x = executing (?sts ! r)) \<or>
              (\<exists>v. res = Some (name (?sts ! r), v) \<and> \<not> busy_fu fu \<and> \<not> executing x)"
    by auto
  from bound_okD [OF bind_inv_bound [OF inv u] True] r
  have old: "r < length ?sts" "busy (?sts ! r)" "executing (?sts ! r)"
    "qj (?sts ! r) = None" "qk (?sts ! r) = None" by auto
  from core_fields [OF cx] old
  have x: "name x = name (?sts ! r)" "busy x" "qj x = None" "qk x = None" by simp_all
  from alt old have fu: "busy_fu fu \<longrightarrow> reservation_station fu = Some r \<and> executing x"
    by auto
  have other: "r' \<noteq> r"
    if "w < length ?fus" "w \<noteq> u" "busy_fu (?fus ! w)" "reservation_station (?fus ! w) = Some r'"
    for w r'
    using bind_inv_unique [OF inv that(1) u that(3) True] that(2,4) r by auto
  have "bind_inv s1"
  proof (rule bind_invI)
    from sts1 x(1) have "map name (reservation_stations s1) = map name ?sts"
      by (simp add: map_update_same)
    with bind_inv_names [OF inv] show "map name (reservation_stations s1) = station_names"
      by simp
  next
    fix w assume "w < length (functional_units s1)"
    with fus1 have w: "w < length ?fus" by simp
    show "bound_ok (functional_units s1 ! w) (reservation_stations s1)"
    proof (cases "w = u")
      case True
      show ?thesis
      proof (cases "busy_fu fu")
        case True
        with fu have "reservation_station fu = Some r" "executing x" by simp_all
        with sts1 fus1 \<open>w = u\<close> w old(1) x show ?thesis
          by (intro bound_okI [of r]) simp_all
      next
        case False
        with fus1 \<open>w = u\<close> w show ?thesis by (simp add: bound_ok_idle)
      qed
    next
      case False
      with fus1 have same: "functional_units s1 ! w = ?fus ! w" by simp
      show ?thesis
      proof (cases "busy_fu (?fus ! w)")
        case True
        from bound_okD [OF bind_inv_bound [OF inv w] True] obtain r' where
          r': "r' < length ?sts" "reservation_station (?fus ! w) = Some r'"
          "busy (?sts ! r')" "executing (?sts ! r')" "qj (?sts ! r') = None"
          "qk (?sts ! r') = None" by blast
        from other [OF w False True r'(2)] have "r' \<noteq> r" .
        with r' sts1 same show ?thesis by (intro bound_okI [of r']) simp_all
      next
        case False
        with same show ?thesis by (simp add: bound_ok_idle)
      qed
    qed
  next
    fix w1 w2 assume "w1 < length (functional_units s1)" "w2 < length (functional_units s1)"
      and b: "busy_fu (functional_units s1 ! w1)" "busy_fu (functional_units s1 ! w2)"
      and e: "reservation_station (functional_units s1 ! w1) =
              reservation_station (functional_units s1 ! w2)"
    with fus1 have w: "w1 < length ?fus" "w2 < length ?fus" by simp_all
    have tr: "busy_fu (?fus ! w) \<and>
              reservation_station (functional_units s1 ! w) = reservation_station (?fus ! w)"
      if "w < length ?fus" "busy_fu (functional_units s1 ! w)" for w
      using that fus1 fu True r by (cases "w = u") simp_all
    from tr [OF w(1) b(1)] tr [OF w(2) b(2)] e
    show "w1 = w2" by (intro bind_inv_unique [OF inv w]) simp_all
  qed
  moreover have "executing (reservation_stations s1 ! i) \<longrightarrow> executing (?sts ! i)"
    if "i < length ?sts" for i
    using that sts1 old(3) by (cases "i = r") simp_all
  moreover have "\<exists>r' < length ?sts.
               name (?sts ! r') = n \<and> executing (?sts ! r') \<and> busy (?sts ! r') \<and>
               qj (?sts ! r') = None \<and> qk (?sts ! r') = None \<and>
               \<not> executing (reservation_stations s1 ! r')"
    if "res = Some (n, v)" for n v
  proof -
    from that alt have "n = name (?sts ! r)" "\<not> executing x" by auto
    with old sts1 show ?thesis by (intro exI [of _ r]) simp
  qed
  ultimately show ?thesis by blast
qed

lemma FunctionalUnit_tick_lengths:
  assumes "FunctionalUnit_tick u s = Inr (s1, res)"
  shows "length (functional_units s1) = length (functional_units s) \<and>
         length (reservation_stations s1) = length (reservation_stations s)"
proof -
  from FunctionalUnit_tick_frame [OF assms]
  have "map core (reservation_stations s1) = map core (reservation_stations s)"
    "length (functional_units s1) = length (functional_units s)" by simp_all
  then show ?thesis by (auto dest: map_eq_imp_length_eq)
qed

lemma bind_units_tick:
  "units_tick us s = Inr (s1, results) \<Longrightarrow> bind_inv s \<Longrightarrow>
     \<forall>u \<in> set us. u < length (functional_units s) \<Longrightarrow>
     bind_inv s1 \<and>
     (\<forall>i < length (reservation_stations s).
        executing (reservation_stations s1 ! i) \<longrightarrow> executing (reservation_stations s ! i)) \<and>
     (\<forall>n v. (n, v) \<in> set results \<longrightarrow>
        (\<exists>r < length (reservation_stations s).
           name (reservation_stations s ! r) = n \<and>
           executing (reservation_stations s ! r) \<and> busy (reservation_stations s ! r) \<and>
           qj (reservation_stations s ! r) = None \<and> qk (reservation_stations s ! r) = None \<and>
           \<not> executing (reservation_stations s1 ! r))) \<and>
     distinct (map fst results)"
proof (induction us arbitrary: s s1 results)
  case Nil
  then show ?case by simp
next
  case (Cons u us)
  let ?sts = "reservation_stations s"
  from Cons.prems(1) obtain sa ra rb where a: "FunctionalUnit_tick u s = Inr (sa, ra)"
    and b: "units_tick us sa = Inr (s1, rb)"
    and res: "results = (case ra of None \<Rightarrow> rb | Some x \<Rightarrow> x # rb)"
    by (auto split: sum.splits prod.splits)
  from Cons.prems(3) have u: "u < length (functional_units s)" by simp
  from bind_unit_tick [OF a Cons.prems(2) u]
  have inva: "bind_inv sa"
    and mona: "\<And>i. i < length ?sts \<Longrightarrow> executing (reservation_stations sa ! i) \<Longrightarrow>
                 executing (?sts ! i)"
    and resa: "\<And>n v. ra = Some (n, v) \<Longrightarrow>
                 \<exists>r < length ?sts. name (?sts ! r) = n \<and> executing (?sts ! r) \<and>
                    busy (?sts ! r) \<and> qj (?sts ! r) = None \<and> qk (?sts ! r) = None \<and>
                    \<not> executing (reservation_stations sa ! r)"
    by blast+
  from FunctionalUnit_tick_lengths [OF a]
  have len: "length (functional_units sa) = length (functional_units s)"
    "length (reservation_stations sa) = length ?sts" by simp_all
  from FunctionalUnit_tick_frame [OF a]
  have core: "map core (reservation_stations sa) = map core ?sts" by simp
  from Cons.prems(3) len have "\<forall>u \<in> set us. u < length (functional_units sa)" by simp
  note ih = Cons.IH [OF b inva this, unfolded len(2)]
  from ih
  have inv1: "bind_inv s1"
    and monb: "\<And>i. i < length ?sts \<Longrightarrow> executing (reservation_stations s1 ! i) \<Longrightarrow>
                 executing (reservation_stations sa ! i)"
    and resb: "\<And>n v. (n, v) \<in> set rb \<Longrightarrow>
                 \<exists>r < length ?sts. name (reservation_stations sa ! r) = n \<and>
                    executing (reservation_stations sa ! r) \<and>
                    busy (reservation_stations sa ! r) \<and>
                    qj (reservation_stations sa ! r) = None \<and>
                    qk (reservation_stations sa ! r) = None \<and>
                    \<not> executing (reservation_stations s1 ! r)"
    and disb: "distinct (map fst rb)"
    by blast+
  have tail: "\<exists>r < length ?sts. name (?sts ! r) = n \<and> executing (?sts ! r) \<and>
                busy (?sts ! r) \<and> qj (?sts ! r) = None \<and> qk (?sts ! r) = None \<and>
                executing (reservation_stations sa ! r) \<and>
                \<not> executing (reservation_stations s1 ! r)"
    if "(n, v) \<in> set rb" for n v
  proof -
    from resb [OF that] obtain r where r: "r < length ?sts"
      "name (reservation_stations sa ! r) = n" "executing (reservation_stations sa ! r)"
      "busy (reservation_stations sa ! r)" "qj (reservation_stations sa ! r) = None"
      "qk (reservation_stations sa ! r) = None" "\<not> executing (reservation_stations s1 ! r)"
      by blast
    from core_fields [OF map_core_nth [OF core r(1)]] r mona [OF r(1) r(3)]
    show ?thesis by (intro exI [of _ r]) simp
  qed
  have head: "\<exists>r < length ?sts. name (?sts ! r) = n \<and> executing (?sts ! r) \<and>
                busy (?sts ! r) \<and> qj (?sts ! r) = None \<and> qk (?sts ! r) = None \<and>
                \<not> executing (reservation_stations sa ! r) \<and>
                \<not> executing (reservation_stations s1 ! r)"
    if "ra = Some (n, v)" for n v
  proof -
    from resa [OF that] obtain r where r: "r < length ?sts" "name (?sts ! r) = n"
      "executing (?sts ! r)" "busy (?sts ! r)" "qj (?sts ! r) = None" "qk (?sts ! r) = None"
      "\<not> executing (reservation_stations sa ! r)" by blast
    from monb [OF r(1)] r(7) have "\<not> executing (reservation_stations s1 ! r)" by blast
    with r show ?thesis by (intro exI [of _ r]) simp
  qed
  have mono: "executing (reservation_stations s1 ! i) \<longrightarrow> executing (?sts ! i)"
    if "i < length ?sts" for i
    using mona [OF that] monb [OF that] by blast
  have all: "\<exists>r < length ?sts. name (?sts ! r) = n \<and> executing (?sts ! r) \<and>
                busy (?sts ! r) \<and> qj (?sts ! r) = None \<and> qk (?sts ! r) = None \<and>
                \<not> executing (reservation_stations s1 ! r)"
    if "(n, v) \<in> set results" for n v
  proof (cases ra)
    case None
    with that res have "(n, v) \<in> set rb" by simp
    from tail [OF this] show ?thesis by blast
  next
    case (Some p)
    with that res have "p = (n, v) \<or> (n, v) \<in> set rb" by auto
    then show ?thesis
    proof
      assume "p = (n, v)"
      with Some head [of n v] show ?thesis by blast
    next
      assume "(n, v) \<in> set rb"
      from tail [OF this] show ?thesis by blast
    qed
  qed
  have dis: "distinct (map fst results)"
  proof (cases ra)
    case None
    with res disb show ?thesis by simp
  next
    case (Some p)
    obtain n v where p: "p = (n, v)" by (cases p)
    have "n \<notin> fst ` set rb"
    proof
      assume "n \<in> fst ` set rb"
      then obtain v' where "(n, v') \<in> set rb" by auto
      from tail [OF this] obtain r' where r': "r' < length ?sts" "name (?sts ! r') = n"
        "executing (reservation_stations sa ! r')" by blast
      from head [of n v] Some p obtain r where r: "r < length ?sts" "name (?sts ! r) = n"
        "\<not> executing (reservation_stations sa ! r)" by blast
      from names_distinct [OF bind_inv_names [OF Cons.prems(2)] r(1) r'(1)] r(2) r'(2)
      have "r = r'" by simp
      with r(3) r'(3) show False by simp
    qed
    with res Some p disb show ?thesis by simp
  qed
  from inv1 mono all dis show ?case by blast
qed

lemma bind_inv_cdb: "bind_inv (s\<lparr>cdb := c\<rparr>) = bind_inv s"
  by (simp add: bind_inv_def)

lemma bind_inv_cycle_metrics: "bind_inv (s\<lparr>cycle := c, metrics := m\<rparr>) = bind_inv s"
  by (simp add: bind_inv_def)

lemma bind_inv_frame:
  assumes inv: "bind_inv s"
    and fus: "functional_units s' = functional_units s"
    and nm: "map name (reservation_stations s') = station_names"
    and keep: "\<And>i. i < length (reservation_stations s) \<Longrightarrow>
                 busy (reservation_stations s ! i) \<Longrightarrow> executing (reservation_stations s ! i) \<Longrightarrow>
                 qj (reservation_stations s ! i) = None \<Longrightarrow> qk (reservation_stations s ! i) = None \<Longrightarrow>
                 busy (reservation_stations s' ! i) \<and> executing (reservation_stations s' ! i) \<and>
                 qj (reservation_stations s' ! i) = None \<and> qk (reservation_stations s' ! i) = None"
  shows "bind_inv s'"
proof (rule bind_invI)
  show "map name (reservation_stations s') = station_names" by (rule nm)
next
  from nm bind_inv_names [OF inv]
  have "length (map name (reservation_stations s')) = length (map name (reservation_stations s))"
    by simp
  then have len: "length (reservation_stations s') = length (reservation_stations s)" by simp
  fix u assume "u < length (functional_units s')"
  with fus have u: "u < length (functional_units s)" by simp
  show "bound_ok (functional_units s' ! u) (reservation_stations s')"
  proof (cases "busy_fu (functional_units s ! u)")
    case True
    from bound_okD [OF bind_inv_bound [OF inv u] True] obtain r where
      r: "r < length (reservation_stations s)"
      "reservation_station (functional_units s ! u) = Some r"
      "busy (reservation_stations s ! r)" "executing (reservation_stations s ! r)"
      "qj (reservation_stations s ! r) = None" "qk (reservation_stations s ! r) = None"
      by blast
    from keep [OF r(1,3,4,5,6)] r(1,2) len fus show ?thesis
      by (intro bound_okI [of r]) simp_all
  next
    case False
    with fus show ?thesis by (simp add: bound_ok_idle)
  qed
next
  fix u w assume "u < length (functional_units s')" "w < length (functional_units s')"
    "busy_fu (functional_units s' ! u)" "busy_fu (functional_units s' ! w)"
    "reservation_station (functional_units s' ! u) = reservation_station (functional_units s' ! w)"
  with fus show "u = w" by (intro bind_inv_unique [OF inv]) simp_all
qed

lemma bind_inv_length: "bind_inv s \<Longrightarrow> length (reservation_stations s) = 9"
proof -
  assume "bind_inv s"
  from bind_inv_names [OF this]
  have "length (map name (reservation_stations s)) = length station_names" by simp
  then show ?thesis by (simp add: station_names_def)
qed

lemma bind_issue:
  assumes i: "issue s = Inr (s', b)" and inv: "bind_inv s"
  shows "bind_inv s'"
proof (cases b)
  case False
  with issue_effect [OF i] have "functional_units s' = functional_units s"
    "reservation_stations s' = reservation_stations s" by auto
  with inv show ?thesis by (simp add: bind_inv_def)
next
  case True
  let ?sts = "reservation_stations s"
  from issue_effect [OF i] True obtain r rs' where
    fus: "functional_units s' = functional_units s"
    and r: "r < 9" "\<not> busy (?sts ! r)"
    and sts': "reservation_stations s' = ?sts[r := rs']"
    and nm: "name rs' = name (?sts ! r)"
    by auto
  from sts' nm have "map name (reservation_stations s') = map name ?sts"
    by (simp add: map_update_same)
  with bind_inv_names [OF inv] have n: "map name (reservation_stations s') = station_names"
    by simp
  show ?thesis
  proof (rule bind_inv_frame [OF inv fus n])
    fix i assume "i < length ?sts" "busy (?sts ! i)"
    with r(2) have "i \<noteq> r" by auto
    moreover assume "executing (?sts ! i)" "qj (?sts ! i) = None" "qk (?sts ! i) = None"
    ultimately show "busy (reservation_stations s' ! i) \<and> executing (reservation_stations s' ! i) \<and>
      qj (reservation_stations s' ! i) = None \<and> qk (reservation_stations s' ! i) = None"
      using sts' \<open>busy (?sts ! i)\<close> by simp
  qed
qed

lemma clear_name: "name (clear x) = name x"
  by (simp add: clear_def)

lemma update_station_from_cdb_name: "name (update_station_from_cdb n v x) = name x"
  by (simp add: update_station_from_cdb_def Let_def)

lemma update_station_from_cdb_busy: "busy (update_station_from_cdb n v x) = busy x"
  by (simp add: update_station_from_cdb_def Let_def)

lemma map_name_update_from_cdb: "map name (update_from_cdb sts n v) = map name sts"
  by (simp add: update_from_cdb_def update_station_from_cdb_name)

lemma bind_write_back_first:
  assumes w: "write_back_first n v s = Inr s'" and inv: "bind_inv s"
    and ne: "\<And>r. get_station_by_name (reservation_stations s) n = Some r \<Longrightarrow>
               \<not> executing (reservation_stations s ! r)"
  shows "bind_inv s'"
proof (cases "get_station_by_name (reservation_stations s) n")
  case None
  from write_back_first_None [OF w None] write_back_first_effect [OF w]
  have "functional_units s' = functional_units s"
    "reservation_stations s' = reservation_stations s" by simp_all
  with inv show ?thesis by (simp add: bind_inv_def)
next
  case (Some r)
  let ?sts = "reservation_stations s"
  let ?u = "update_from_cdb ?sts n v"
  from get_station_by_name_Some [OF Some] have r: "r < length ?sts" by simp
  from write_back_first_Some [OF w Some]
  have sts': "reservation_stations s' = ?u[r := clear (?u ! r)]" by blast
  from write_back_first_effect [OF w] have fus: "functional_units s' = functional_units s"
    by simp
  have lenu: "length ?u = length ?sts" by (simp add: update_from_cdb_def)
  have "map name (reservation_stations s') = map name ?u"
    unfolding sts' by (rule map_update_same) (simp add: clear_name)
  with bind_inv_names [OF inv] have n: "map name (reservation_stations s') = station_names"
    by (simp add: map_name_update_from_cdb)
  show ?thesis
  proof (rule bind_inv_frame [OF inv fus n])
    fix i assume i: "i < length ?sts" and b: "busy (?sts ! i)" and e: "executing (?sts ! i)"
      and q: "qj (?sts ! i) = None" "qk (?sts ! i) = None"
    from e ne [OF Some] have "i \<noteq> r" by auto
    with sts' i lenu have "reservation_stations s' ! i = update_station_from_cdb n v (?sts ! i)"
      by (simp add: nth_update_from_cdb)
    also have "\<dots> = ?sts ! i" using q by (rule update_station_from_cdb_ready)
    finally show "busy (reservation_stations s' ! i) \<and> executing (reservation_stations s' ! i) \<and>
      qj (reservation_stations s' ! i) = None \<and> qk (reservation_stations s' ! i) = None"
      using b e q by simp
  qed
qed

lemma station_index_distinct:
  "distinct (map name sts) \<Longrightarrow> r < length sts \<Longrightarrow>
     station_index sts (name (sts ! r)) i = Some (i + r)"
proof (induction sts arbitrary: r i)
  case Nil
  then show ?case by simp
next
  case (Cons st sts)
  show ?case
  proof (cases r)
    case 0
    then show ?thesis by simp
  next
    case (Suc r')
    with Cons.prems have r': "r' < length sts" and d: "distinct (map name sts)"
      and n: "name st \<notin> set (map name sts)" by simp_all
    from r' have "name (sts ! r') \<in> set (map name sts)" by simp
    with n have "name st \<noteq> name (sts ! r')" by auto
    with Cons.IH [OF d r', of "Suc i"] Suc show ?thesis by simp
  qed
qed

lemma get_station_by_name_nth:
  assumes "map name sts = station_names" and "r < length sts"
  shows "get_station_by_name sts (name (sts ! r)) = Some r"
proof -
  from assms(1) have "distinct (map name sts)" by (simp add: distinct_station_names)
  from station_index_distinct [OF this assms(2), of 0] show ?thesis
    by (simp add: get_station_by_name_def)
qed

text \<open>
  What the completions that \<open>FunctionalUnits.tick\<close> hands to \<open>write_back\<close> are: distinct
  station names; each names a station that was executing with both operands and is, after
  the units have ticked, still busy with both operands and no longer executing.
\<close>

lemma completions:
  assumes t: "FunctionalUnits_tick (s\<lparr>cdb := c\<rparr>) = Inr (s1, results)" and inv: "bind_inv s"
  shows "bind_inv s1 \<and> distinct (map fst results) \<and>
         map core (reservation_stations s1) = map core (reservation_stations s) \<and>
         (\<forall>n v. (n, v) \<in> set results \<longrightarrow>
            (\<exists>r < length (reservation_stations s1).
               get_station_by_name (reservation_stations s1) n = Some r \<and>
               name (reservation_stations s1 ! r) = n \<and>
               executing (reservation_stations s ! r) \<and>
               busy (reservation_stations s1 ! r) \<and> \<not> executing (reservation_stations s1 ! r) \<and>
               qj (reservation_stations s1 ! r) = None \<and> qk (reservation_stations s1 ! r) = None))"
proof -
  let ?s = "s\<lparr>cdb := c\<rparr>"
  from inv have inv0: "bind_inv ?s" by (simp add: bind_inv_cdb)
  from t have t': "units_tick [0 ..< length (functional_units ?s)] ?s = Inr (s1, results)"
    by (simp add: FunctionalUnits_tick_def)
  have "\<forall>u \<in> set [0 ..< length (functional_units ?s)]. u < length (functional_units ?s)"
    by simp
  from bind_units_tick [OF t' inv0 this]
  have inv1: "bind_inv s1" and dis: "distinct (map fst results)"
    and res: "\<And>n v. (n, v) \<in> set results \<Longrightarrow>
               \<exists>r < length (reservation_stations s).
                 name (reservation_stations s ! r) = n \<and>
                 executing (reservation_stations s ! r) \<and> busy (reservation_stations s ! r) \<and>
                 qj (reservation_stations s ! r) = None \<and> qk (reservation_stations s ! r) = None \<and>
                 \<not> executing (reservation_stations s1 ! r)"
    by simp_all blast
  from units_tick_frame [OF t']
  have core: "map core (reservation_stations s1) = map core (reservation_stations s)" by simp
  then have len: "length (reservation_stations s1) = length (reservation_stations s)"
    by (rule map_eq_imp_length_eq)
  have "\<exists>r < length (reservation_stations s1).
               get_station_by_name (reservation_stations s1) n = Some r \<and>
               name (reservation_stations s1 ! r) = n \<and>
               executing (reservation_stations s ! r) \<and>
               busy (reservation_stations s1 ! r) \<and> \<not> executing (reservation_stations s1 ! r) \<and>
               qj (reservation_stations s1 ! r) = None \<and> qk (reservation_stations s1 ! r) = None"
    if "(n, v) \<in> set results" for n v
  proof -
    from res [OF that] obtain r where r: "r < length (reservation_stations s)"
      "name (reservation_stations s ! r) = n" "executing (reservation_stations s ! r)"
      "busy (reservation_stations s ! r)" "qj (reservation_stations s ! r) = None"
      "qk (reservation_stations s ! r) = None" "\<not> executing (reservation_stations s1 ! r)"
      by blast
    from core_fields [OF map_core_nth [OF core r(1)]] r
    have f: "name (reservation_stations s1 ! r) = n" "busy (reservation_stations s1 ! r)"
      "qj (reservation_stations s1 ! r) = None" "qk (reservation_stations s1 ! r) = None"
      by simp_all
    from r(1) len have r1: "r < length (reservation_stations s1)" by simp
    from get_station_by_name_nth [OF bind_inv_names [OF inv1] r1] f(1)
    have "get_station_by_name (reservation_stations s1) n = Some r" by simp
    with r1 f r(3,7) show ?thesis by (intro exI [of _ r]) simp
  qed
  with inv1 dis core show ?thesis by blast
qed

lemma bind_write_back:
  assumes w: "write_back s = Inr s'" and inv: "bind_inv s"
  shows "bind_inv s'"
proof -
  from write_back_cases [OF w] obtain s1 res where
    t: "units_tick [0 ..< length (functional_units s)] (s\<lparr>cdb := CommonDataBus_clear\<rparr>) = Inr (s1, res)"
    and f: "(res = [] \<and> s' = s1) \<or> (\<exists>n v rest. res = (n, v) # rest \<and> write_back_first n v s1 = Inr s')"
    by blast
  from t have "FunctionalUnits_tick (s\<lparr>cdb := CommonDataBus_clear\<rparr>) = Inr (s1, res)"
    by (simp add: FunctionalUnits_tick_def)
  from completions [OF this inv]
  have inv1: "bind_inv s1"
    and res: "\<And>n v. (n, v) \<in> set res \<Longrightarrow>
               \<exists>r. get_station_by_name (reservation_stations s1) n = Some r \<and>
                   \<not> executing (reservation_stations s1 ! r)"
    by simp_all blast
  from f show ?thesis
  proof
    assume "res = [] \<and> s' = s1"
    with inv1 show ?thesis by simp
  next
    assume "\<exists>n v rest. res = (n, v) # rest \<and> write_back_first n v s1 = Inr s'"
    then obtain n v rest where r: "res = (n, v) # rest" and wf: "write_back_first n v s1 = Inr s'"
      by blast
    from r have "(n, v) \<in> set res" by simp
    from res [OF this] have "\<And>r. get_station_by_name (reservation_stations s1) n = Some r \<Longrightarrow>
               \<not> executing (reservation_stations s1 ! r)" by auto
    from bind_write_back_first [OF wf inv1 this] show ?thesis .
  qed
qed

lemma ident_busy: "ident a = ident b \<Longrightarrow> busy a = busy b \<and> name a = name b"
  by (simp add: ident_def)

lemma bind_execute_station:
  assumes e: "execute_station r s = Inr s'" and r: "r < length (reservation_stations s)"
    and inv: "bind_inv s"
  shows "bind_inv s'"
proof (cases "s' = s")
  case True
  with inv show ?thesis by simp
next
  case False
  let ?sts = "reservation_stations s" and ?fus = "functional_units s"
  from execute_station_effect [OF e r] False obtain u x fu where
    rdy: "isReady (?sts ! r)"
    and u: "u < length ?fus" "\<not> busy_fu (?fus ! u)"
    and fus': "functional_units s' = ?fus[u := fu]"
    and fu: "busy_fu fu" "reservation_station fu = Some r"
    and sts': "reservation_stations s' = ?sts[r := x]"
    and x: "ident x = ident (?sts ! r)" "executing x" "qj x = qj (?sts ! r)" "qk x = qk (?sts ! r)"
    by auto
  from rdy have old: "busy (?sts ! r)" "\<not> executing (?sts ! r)" "qj (?sts ! r) = None"
    "qk (?sts ! r) = None" by (simp_all add: isReady_def)
  from ident_busy [OF x(1)] old x
  have x': "busy x" "name x = name (?sts ! r)" "qj x = None" "qk x = None" by simp_all
  have other: "r' \<noteq> r"
    if "w < length ?fus" "busy_fu (?fus ! w)" "reservation_station (?fus ! w) = Some r'" for w r'
    using bound_okD [OF bind_inv_bound [OF inv that(1)] that(2)] that(3) old(2) by auto
  show ?thesis
  proof (rule bind_invI)
    from sts' x'(2) have "map name (reservation_stations s') = map name ?sts"
      by (simp add: map_update_same)
    with bind_inv_names [OF inv] show "map name (reservation_stations s') = station_names"
      by simp
  next
    fix w assume "w < length (functional_units s')"
    with fus' have w: "w < length ?fus" by simp
    show "bound_ok (functional_units s' ! w) (reservation_stations s')"
    proof (cases "w = u")
      case True
      with fus' w fu sts' r x(2) x' show ?thesis
        by (intro bound_okI [of r]) simp_all
    next
      case False
      with fus' have same: "functional_units s' ! w = ?fus ! w" by simp
      show ?thesis
      proof (cases "busy_fu (?fus ! w)")
        case True
        from bound_okD [OF bind_inv_bound [OF inv w] True] obtain r' where
          r': "r' < length ?sts" "reservation_station (?fus ! w) = Some r'"
          "busy (?sts ! r')" "executing (?sts ! r')" "qj (?sts ! r') = None"
          "qk (?sts ! r') = None" by blast
        from other [OF w True r'(2)] have "r' \<noteq> r" .
        with r' sts' same show ?thesis by (intro bound_okI [of r']) simp_all
      next
        case False
        with same show ?thesis by (simp add: bound_ok_idle)
      qed
    qed
  next
    fix w1 w2 assume "w1 < length (functional_units s')" "w2 < length (functional_units s')"
      and b: "busy_fu (functional_units s' ! w1)" "busy_fu (functional_units s' ! w2)"
      and eq: "reservation_station (functional_units s' ! w1) =
               reservation_station (functional_units s' ! w2)"
    with fus' have w: "w1 < length ?fus" "w2 < length ?fus" by simp_all
    show "w1 = w2"
    proof (cases "w1 = u")
      case True
      note w1u = True
      show ?thesis
      proof (cases "w2 = u")
        case True
        with w1u show ?thesis by simp
      next
        case False
        with fus' b(2) eq w1u w fu
        have "busy_fu (?fus ! w2)" "reservation_station (?fus ! w2) = Some r" by simp_all
        from other [OF w(2) this] show ?thesis by simp
      qed
    next
      case False
      note w1u = False
      show ?thesis
      proof (cases "w2 = u")
        case True
        with fus' b(1) eq w1u w fu
        have "busy_fu (?fus ! w1)" "reservation_station (?fus ! w1) = Some r" by simp_all
        from other [OF w(1) this] show ?thesis by simp
      next
        case False
        with w1u fus' b eq show ?thesis by (intro bind_inv_unique [OF inv w]) simp_all
      qed
    qed
  qed
qed

lemma bind_execute_loop:
  "execute_loop rs s = Inr s' \<Longrightarrow> \<forall>r \<in> set rs. r < length (reservation_stations s) \<Longrightarrow>
     bind_inv s \<Longrightarrow> bind_inv s'"
proof (induction rs arbitrary: s)
  case Nil
  then show ?case by simp
next
  case (Cons r rs)
  from Cons.prems(1) obtain s1 where a: "execute_station r s = Inr s1"
    and b: "execute_loop rs s1 = Inr s'"
    by (auto split: sum.splits)
  from Cons.prems(2) have r: "r < length (reservation_stations s)" by simp
  from bind_execute_station [OF a r Cons.prems(3)] have inv1: "bind_inv s1" .
  from execute_station_length [OF a r] Cons.prems(2)
  have "\<forall>r \<in> set rs. r < length (reservation_stations s1)" by simp
  from Cons.IH [OF b this inv1] show ?case .
qed

lemma bind_execute:
  assumes "execute s = Inr s'" and "bind_inv s"
  shows "bind_inv s'"
  using assms bind_execute_loop [of "[0 ..< length (reservation_stations s)]" s s']
  by (simp add: execute_def)

lemma bind_tick:
  assumes "tick s = Inr (s', b)" and "bind_inv s"
  shows "bind_inv s'"
proof -
  from tick_phases [OF assms(1)] obtain m s1 s2 b' where
    w: "write_back (s\<lparr>cycle := cycle s + 1, metrics := m\<rparr>) = Inr s1"
    and e: "execute s1 = Inr s2" and i: "issue s2 = Inr (s', b')"
    by blast
  from assms(2) have "bind_inv (s\<lparr>cycle := cycle s + 1, metrics := m\<rparr>)"
    by (simp add: bind_inv_cycle_metrics)
  from bind_issue [OF i bind_execute [OF e bind_write_back [OF w this]]] show ?thesis .
qed

lemma bind_ticks: "ticks n s = Inr s' \<Longrightarrow> bind_inv s \<Longrightarrow> bind_inv s'"
proof (induction n arbitrary: s)
  case 0
  then show ?case by simp
next
  case (Suc n)
  from Suc.prems(1) obtain s1 b where a: "tick s = Inr (s1, b)" and c: "ticks n s1 = Inr s'"
    by (auto split: sum.splits)
  from Suc.IH [OF c bind_tick [OF a Suc.prems(2)]] show ?case .
qed

lemma bind_inv_init: "bind_inv (Simulator_init regs prog)"
proof (rule bind_invI)
  show "map name (reservation_stations (Simulator_init regs prog)) = station_names"
    by (simp add: Simulator_init_def ReservationStations_init_def ReservationStation_init_def
          station_names_def)
next
  have idle: "\<forall>fu \<in> set FunctionalUnits_init. \<not> busy_fu fu"
    by (simp add: FunctionalUnits_init_def FunctionalUnit_init_def)
  {
    fix u assume "u < length (functional_units (Simulator_init regs prog))"
    then have "functional_units (Simulator_init regs prog) ! u \<in> set FunctionalUnits_init"
      by (simp add: Simulator_init_def)
    with idle have "\<not> busy_fu (functional_units (Simulator_init regs prog) ! u)" by blast
  }
  note nb = this
  {
    fix u assume "u < length (functional_units (Simulator_init regs prog))"
    from nb [OF this]
    show "bound_ok (functional_units (Simulator_init regs prog) ! u)
            (reservation_stations (Simulator_init regs prog))"
      by (rule bound_ok_idle)
  next
    fix u w :: nat assume "u < length (functional_units (Simulator_init regs prog))"
      "busy_fu (functional_units (Simulator_init regs prog) ! u)"
    with nb show "u = w" by blast
  }
qed

lemma bind_inv_reachable:
  "ticks n (Simulator_init regs prog) = Inr s \<Longrightarrow> bind_inv s"
  by (rule bind_ticks [OF _ bind_inv_init])

lemma write_back_first_registers:
  assumes w: "write_back_first n v s = Inr s'"
    and g: "get_station_by_name (reservation_stations s) n = Some r"
  shows "cdb s' = fst (broadcast (cdb s) n v) \<and>
         metrics s' = (metrics s)\<lparr>completed_instructions :=
                                    completed_instructions (metrics s) + 1\<rparr> \<and>
         (if op_rs (reservation_stations s ! r) \<in>
               {Some ADD, Some SUB, Some MUL, Some DIV, Some LOAD}
          then \<exists>d. get_register_index (dest_rs (reservation_stations s ! r)) = Inr d \<and>
                 d < length (registers (register_file s)) \<and>
                 registers (register_file s') = (registers (register_file s))[d := v]
          else register_file s' = register_file s)"
proof -
  let ?rs = "reservation_stations s ! r"
  from w g obtain k where k: "instruction ?rs = Some k"
    by (cases "instruction ?rs") (auto simp: write_back_first_def Let_def)
  let ?rf = "register_file s"
  let ?wr = "if op_rs ?rs \<in> {Some ADD, Some SUB, Some MUL, Some DIV, Some LOAD} then
               (case RegisterFile_write ?rf (dest_rs ?rs) v of
                  Inl e \<Rightarrow> Inl e
                | Inr rf1 \<Rightarrow>
                   (case get_status rf1 (dest_rs ?rs) of
                      Inl e \<Rightarrow> Inl e
                    | Inr st \<Rightarrow>
                       (if st = Some n then set_status rf1 (dest_rs ?rs) None
                        else Inr rf1)))
             else Inr ?rf"
  from w g k obtain rf' where wr: "?wr = Inr rf'"
    by (cases ?wr) (auto simp: write_back_first_def Let_def split: if_splits)
  let ?sts = "update_from_cdb (reservation_stations s) n v"
  from w g k wr have s': "s' = s\<lparr>cdb := fst (broadcast (cdb s) n v),
      instructions := (instructions s)
        [k := (instructions s ! k)\<lparr>execute_complete_cycle := Some (cycle s),
                                    write_result_cycle := Some (cycle s)\<rparr>],
      register_file := rf', reservation_stations := ?sts[r := clear (?sts ! r)],
      metrics := (metrics s)\<lparr>completed_instructions :=
                                completed_instructions (metrics s) + 1\<rparr>\<rparr>"
    by (auto simp: write_back_first_def Let_def split: if_splits)
  have rf: "if op_rs ?rs \<in> {Some ADD, Some SUB, Some MUL, Some DIV, Some LOAD}
            then \<exists>d. get_register_index (dest_rs ?rs) = Inr d \<and>
                   d < length (registers ?rf) \<and>
                   registers rf' = (registers ?rf)[d := v]
            else rf' = ?rf"
    using wr
    by (auto simp: RegisterFile_write_def get_status_def set_status_def
             split: sum.splits if_splits)
  from s' rf show ?thesis by simp
qed

lemma update_station_from_cdb_explicit:
  "update_station_from_cdb n v st =
     st\<lparr>qj := (if qj st = Some n then None else qj st),
        vj := (if qj st = Some n then v else vj st),
        qk := (if qk st = Some n then None else qk st),
        vk := (if qk st = Some n then v else vk st)\<rparr>"
  by (simp add: update_station_from_cdb_def Let_def)

lemma clear_not_busy: "\<not> busy (clear x)"
  by (simp add: clear_def)

text \<open>
  The whole effect of \<open>write_back\<close> in a state where units and stations are tied as
  \<open>bind_inv\<close> says, when at least one unit completes: the completion that is first is put
  on the bus, stamped on its instruction, written to the register file unless it is a
  store, used to wake the stations waiting for its tag, and its station is cleared; the
  station of any other completion is left as the units left it.
\<close>

lemma write_back_arbitration:
  assumes inv: "bind_inv s"
    and t: "FunctionalUnits_tick (s\<lparr>cdb := CommonDataBus_clear\<rparr>) = Inr (s1, (n, v) # rest)"
    and w: "write_back s = Inr s'"
  shows "\<exists>r k. r < length (reservation_stations s) \<and> name (reservation_stations s ! r) = n \<and>
           instruction (reservation_stations s ! r) = Some k \<and>
           length (reservation_stations s') = length (reservation_stations s) \<and>
           length (reservation_stations s1) = length (reservation_stations s) \<and>
           map core (reservation_stations s1) = map core (reservation_stations s) \<and>
           bind_inv s1 \<and>
           cdb s' = \<lparr>cdb_reservation_station = Some n, cdb_value = v, cdb_busy = Some True\<rparr> \<and>
           metrics s' = (metrics s)\<lparr>completed_instructions :=
                                      completed_instructions (metrics s) + 1\<rparr> \<and>
           functional_units s' = functional_units s1 \<and> memory s' = memory s1 \<and>
           stdout s' = stdout s1 \<and> cycle s' = cycle s \<and> pc s' = pc s \<and>
           instructions s' = (instructions s)
             [k := (instructions s ! k)\<lparr>execute_complete_cycle := Some (cycle s),
                                         write_result_cycle := Some (cycle s)\<rparr>] \<and>
           reservation_stations s' ! r = clear (reservation_stations s1 ! r) \<and>
           (\<forall>i < length (reservation_stations s). i \<noteq> r \<longrightarrow>
              reservation_stations s' ! i =
                update_station_from_cdb n v (reservation_stations s1 ! i)) \<and>
           (if op_rs (reservation_stations s ! r) \<in>
                 {Some ADD, Some SUB, Some MUL, Some DIV, Some LOAD}
            then \<exists>d. get_register_index (dest_rs (reservation_stations s ! r)) = Inr d \<and>
                   d < length (registers (register_file s)) \<and>
                   d < length (status (register_file s)) \<and>
                   registers (register_file s') = (registers (register_file s))[d := v] \<and>
                   status (register_file s') =
                     (if status (register_file s) ! d = Some n
                      then (status (register_file s))[d := None]
                      else status (register_file s))
            else register_file s' = register_file s) \<and>
           (\<forall>n2 v2. (n2, v2) \<in> set rest \<longrightarrow>
              (\<exists>r2 < length (reservation_stations s). r2 \<noteq> r \<and>
                 name (reservation_stations s ! r2) = n2 \<and>
                 executing (reservation_stations s ! r2) \<and>
                 reservation_stations s' ! r2 = reservation_stations s1 ! r2 \<and>
                 busy (reservation_stations s1 ! r2) \<and>
                 \<not> executing (reservation_stations s1 ! r2) \<and>
                 qj (reservation_stations s1 ! r2) = None \<and>
                 qk (reservation_stations s1 ! r2) = None))"
proof -
  let ?sts = "reservation_stations s" and ?sts1 = "reservation_stations s1"
  let ?u = "update_from_cdb ?sts1 n v"
  from completions [OF t inv]
  have inv1: "bind_inv s1" and dis: "distinct (map fst ((n, v) # rest))"
    and core: "map core ?sts1 = map core ?sts"
    and res: "\<And>n' v'. (n', v') \<in> set ((n, v) # rest) \<Longrightarrow>
               \<exists>r < length ?sts1.
                 get_station_by_name ?sts1 n' = Some r \<and> name (?sts1 ! r) = n' \<and>
                 executing (?sts ! r) \<and>
                 busy (?sts1 ! r) \<and> \<not> executing (?sts1 ! r) \<and>
                 qj (?sts1 ! r) = None \<and> qk (?sts1 ! r) = None"
    by simp_all blast
  from core have len: "length ?sts1 = length ?sts" by (rule map_eq_imp_length_eq)
  from t have t': "units_tick [0 ..< length (functional_units (s\<lparr>cdb := CommonDataBus_clear\<rparr>))]
                     (s\<lparr>cdb := CommonDataBus_clear\<rparr>) = Inr (s1, (n, v) # rest)"
    by (simp add: FunctionalUnits_tick_def)
  from units_tick_frame [OF t']
  have fr: "register_file s1 = register_file s" "instructions s1 = instructions s"
    "pc s1 = pc s" "cycle s1 = cycle s" "metrics s1 = metrics s" "cdb s1 = CommonDataBus_clear"
    by simp_all
  from w t have wf: "write_back_first n v s1 = Inr s'" by (simp add: write_back_def)
  have "(n, v) \<in> set ((n, v) # rest)" by simp
  from res [OF this] obtain r where r: "r < length ?sts1"
    and g: "get_station_by_name ?sts1 n = Some r" and nm1: "name (?sts1 ! r) = n"
    and rdy: "qj (?sts1 ! r) = None" "qk (?sts1 ! r) = None"
    by blast
  from r len have r0: "r < length ?sts" by simp
  note cf = core_fields [OF map_core_nth [OF core r0]]
  from write_back_first_Some [OF wf g] obtain k where k: "instruction (?sts1 ! r) = Some k"
    and is': "instructions s' = (instructions s1)
               [k := (instructions s1 ! k)\<lparr>execute_complete_cycle := Some (cycle s1),
                                            write_result_cycle := Some (cycle s1)\<rparr>]"
    and sts': "reservation_stations s' = ?u[r := clear (?u ! r)]"
    and st: "if op_rs (?sts1 ! r) \<in> {Some ADD, Some SUB, Some MUL, Some DIV, Some LOAD}
             then \<exists>d. get_register_index (dest_rs (?sts1 ! r)) = Inr d \<and>
                    d < length (status (register_file s1)) \<and>
                    status (register_file s') =
                      (if status (register_file s1) ! d = Some n
                       then (status (register_file s1))[d := None]
                       else status (register_file s1))
             else register_file s' = register_file s1"
    by blast
  from write_back_first_registers [OF wf g]
  have cdb': "cdb s' = fst (broadcast (cdb s1) n v)"
    and met: "metrics s' = (metrics s1)\<lparr>completed_instructions :=
                                          completed_instructions (metrics s1) + 1\<rparr>"
    and rg: "if op_rs (?sts1 ! r) \<in> {Some ADD, Some SUB, Some MUL, Some DIV, Some LOAD}
             then \<exists>d. get_register_index (dest_rs (?sts1 ! r)) = Inr d \<and>
                    d < length (registers (register_file s1)) \<and>
                    registers (register_file s') = (registers (register_file s1))[d := v]
             else register_file s' = register_file s1"
    by simp_all
  from write_back_first_effect [OF wf]
  have fr': "functional_units s' = functional_units s1" "memory s' = memory s1"
    "stdout s' = stdout s1" "cycle s' = cycle s1" "pc s' = pc s1" by simp_all
  have lenu: "length ?u = length ?sts1" by (simp add: update_from_cdb_def)
  have c1: "cdb s' = \<lparr>cdb_reservation_station = Some n, cdb_value = v, cdb_busy = Some True\<rparr>"
    using cdb' fr(6) by (simp add: broadcast_def CommonDataBus_clear_def)
  have c2: "reservation_stations s' ! r = clear (?sts1 ! r)"
    using sts' r lenu rdy
    by (simp add: nth_update_from_cdb update_station_from_cdb_ready)
  have c3: "reservation_stations s' ! i = update_station_from_cdb n v (?sts1 ! i)"
    if "i < length ?sts" "i \<noteq> r" for i
    using that sts' len by (simp add: nth_update_from_cdb)
  have c4: "if op_rs (?sts ! r) \<in> {Some ADD, Some SUB, Some MUL, Some DIV, Some LOAD}
            then \<exists>d. get_register_index (dest_rs (?sts ! r)) = Inr d \<and>
                   d < length (registers (register_file s)) \<and>
                   d < length (status (register_file s)) \<and>
                   registers (register_file s') = (registers (register_file s))[d := v] \<and>
                   status (register_file s') =
                     (if status (register_file s) ! d = Some n
                      then (status (register_file s))[d := None]
                      else status (register_file s))
            else register_file s' = register_file s"
  proof (cases "op_rs (?sts ! r) \<in> {Some ADD, Some SUB, Some MUL, Some DIV, Some LOAD}")
    case True
    with cf(2) have o1: "op_rs (?sts1 ! r) \<in> {Some ADD, Some SUB, Some MUL, Some DIV, Some LOAD}"
      by simp
    from st o1 obtain d where d: "get_register_index (dest_rs (?sts1 ! r)) = Inr d"
      "d < length (status (register_file s1))"
      "status (register_file s') =
         (if status (register_file s1) ! d = Some n
          then (status (register_file s1))[d := None] else status (register_file s1))"
      by (auto simp del: insert_iff)
    from rg o1 obtain d' where d': "get_register_index (dest_rs (?sts1 ! r)) = Inr d'"
      "d' < length (registers (register_file s1))"
      "registers (register_file s') = (registers (register_file s1))[d' := v]"
      by (auto simp del: insert_iff)
    from d(1) d'(1) have "d' = d" by simp
    with d d' fr(1) cf(8) have
      "get_register_index (dest_rs (?sts ! r)) = Inr d \<and>
       d < length (registers (register_file s)) \<and>
       d < length (status (register_file s)) \<and>
       registers (register_file s') = (registers (register_file s))[d := v] \<and>
       status (register_file s') =
         (if status (register_file s) ! d = Some n
          then (status (register_file s))[d := None]
          else status (register_file s))" by simp
    then have "\<exists>d. get_register_index (dest_rs (?sts ! r)) = Inr d \<and>
       d < length (registers (register_file s)) \<and>
       d < length (status (register_file s)) \<and>
       registers (register_file s') = (registers (register_file s))[d := v] \<and>
       status (register_file s') =
         (if status (register_file s) ! d = Some n
          then (status (register_file s))[d := None]
          else status (register_file s))" by (rule exI)
    with True show ?thesis by (simp only: if_True)
  next
    case False
    with cf(2) have "op_rs (?sts1 ! r) \<notin> {Some ADD, Some SUB, Some MUL, Some DIV, Some LOAD}"
      by simp
    with rg have "register_file s' = register_file s1" by (simp only: if_False)
    with fr(1) have "register_file s' = register_file s" by simp
    with False show ?thesis by (simp only: if_False)
  qed
  have c5: "\<exists>r2 < length ?sts. r2 \<noteq> r \<and> name (?sts ! r2) = n2 \<and> executing (?sts ! r2) \<and>
              reservation_stations s' ! r2 = ?sts1 ! r2 \<and> busy (?sts1 ! r2) \<and>
              \<not> executing (?sts1 ! r2) \<and> qj (?sts1 ! r2) = None \<and> qk (?sts1 ! r2) = None"
    if "(n2, v2) \<in> set rest" for n2 v2
  proof -
    from that have "(n2, v2) \<in> set ((n, v) # rest)" by simp
    from res [OF this] obtain r2 where r2: "r2 < length ?sts1" "name (?sts1 ! r2) = n2"
      "executing (?sts ! r2)" "busy (?sts1 ! r2)" "\<not> executing (?sts1 ! r2)"
      "qj (?sts1 ! r2) = None" "qk (?sts1 ! r2) = None" by blast
    from r2(1) len have r20: "r2 < length ?sts" by simp
    from dis that have "n2 \<noteq> n" by (auto simp: image_iff)
    with r2(2) nm1 have ne: "r2 \<noteq> r" by auto
    from core_fields [OF map_core_nth [OF core r20]] r2(2)
    have nm2: "name (?sts ! r2) = n2" by simp
    from c3 [OF r20 ne] r2(6,7) have "reservation_stations s' ! r2 = ?sts1 ! r2"
      by (simp add: update_station_from_cdb_ready)
    with r20 ne nm2 r2 show ?thesis by (intro exI [of _ r2]) simp
  qed
  from sts' lenu len have c6: "length (reservation_stations s') = length ?sts" by simp
  from cf nm1 k have c7: "name (?sts ! r) = n" "instruction (?sts ! r) = Some k" by simp_all
  from is' fr have c8: "instructions s' = (instructions s)
             [k := (instructions s ! k)\<lparr>execute_complete_cycle := Some (cycle s),
                                         write_result_cycle := Some (cycle s)\<rparr>]" by simp
  from met fr have c9: "metrics s' = (metrics s)\<lparr>completed_instructions :=
                                      completed_instructions (metrics s) + 1\<rparr>" by simp
  from fr' fr have c10: "cycle s' = cycle s" "pc s' = pc s" by simp_all
  show ?thesis
    apply (rule exI [of _ r], rule exI [of _ k])
    apply (intro conjI allI impI)
    using r0 c7 c6 len core inv1 c1 c9 fr' c10 c8 c2 c3 c4 c5 apply blast+
    done
qed
subsection \<open>One completion per write-back\<close>

text \<open>
  Claim C2. Take any state \<open>s0\<close> reached by ticks from a freshly loaded trace, and the
  write-back phase of the next tick (\<open>c\<close> and \<open>m\<close> are the cycle number and the metrics
  that \<open>tick\<close> has set before it calls \<open>write_back\<close>). If the functional units return the
  completions \<open>(n, v) # rest\<close>, then the first completion, and only it, is processed:
  the bus carries \<open>n\<close> and \<open>v\<close>; the counter of completed instructions grows by exactly
  one; the instruction held by the station named \<open>n\<close> gets its completion stamps and no
  other instruction changes; unless the operation is a store, \<open>v\<close> is written to the
  destination register of that station and the status of that register is cleared if it
  still names \<open>n\<close>, and nothing else in the register file changes; that station is cleared;
  every other station has \<open>v\<close> put in each operand that was waiting for \<open>n\<close> and is
  otherwise as the units left it. Each completion in \<open>rest\<close> belongs to another station,
  which is left exactly as the units left it: still busy, holding the same instruction,
  whose timestamps are unchanged.
\<close>

theorem write_back_one_completion:
  assumes "list_all fresh prog"
    and "ticks j (Simulator_init regs prog) = Inr s0"
    and "FunctionalUnits_tick (s0\<lparr>cycle := c, metrics := m, cdb := CommonDataBus_clear\<rparr>) =
           Inr (s1, (n, v) # rest)"
    and "write_back (s0\<lparr>cycle := c, metrics := m\<rparr>) = Inr s'"
  shows "cdb s' = \<lparr>cdb_reservation_station = Some n, cdb_value = v, cdb_busy = Some True\<rparr> \<and>
         completed_instructions (metrics s') = completed_instructions m + 1 \<and>
         (\<exists>r k. r < length (reservation_stations s0) \<and>
            name (reservation_stations s0 ! r) = n \<and>
            instruction (reservation_stations s0 ! r) = Some k \<and>
            instructions s' = (instructions s0)
              [k := (instructions s0 ! k)\<lparr>execute_complete_cycle := Some c,
                                           write_result_cycle := Some c\<rparr>] \<and>
            (if op_rs (reservation_stations s0 ! r) \<in>
                  {Some ADD, Some SUB, Some MUL, Some DIV, Some LOAD}
             then \<exists>d. get_register_index (dest_rs (reservation_stations s0 ! r)) = Inr d \<and>
                    d < length (registers (register_file s0)) \<and>
                    registers (register_file s') = (registers (register_file s0))[d := v] \<and>
                    status (register_file s') =
                      (if status (register_file s0) ! d = Some n
                       then (status (register_file s0))[d := None]
                       else status (register_file s0))
             else register_file s' = register_file s0) \<and>
            reservation_stations s' ! r = clear (reservation_stations s1 ! r) \<and>
            \<not> busy (reservation_stations s' ! r) \<and>
            (\<forall>i < length (reservation_stations s0). i \<noteq> r \<longrightarrow>
               reservation_stations s' ! i =
                 (reservation_stations s1 ! i)
                   \<lparr>qj := (if qj (reservation_stations s1 ! i) = Some n then None
                           else qj (reservation_stations s1 ! i)),
                    vj := (if qj (reservation_stations s1 ! i) = Some n then v
                           else vj (reservation_stations s1 ! i)),
                    qk := (if qk (reservation_stations s1 ! i) = Some n then None
                           else qk (reservation_stations s1 ! i)),
                    vk := (if qk (reservation_stations s1 ! i) = Some n then v
                           else vk (reservation_stations s1 ! i))\<rparr>) \<and>
            (\<forall>n2 v2. (n2, v2) \<in> set rest \<longrightarrow>
               (\<exists>r2 < length (reservation_stations s0). r2 \<noteq> r \<and>
                  name (reservation_stations s0 ! r2) = n2 \<and>
                  reservation_stations s' ! r2 = reservation_stations s1 ! r2 \<and>
                  core (reservation_stations s1 ! r2) = core (reservation_stations s0 ! r2) \<and>
                  busy (reservation_stations s' ! r2) \<and>
                  (\<forall>k2. instruction (reservation_stations s0 ! r2) = Some k2 \<longrightarrow>
                     k2 \<noteq> k \<and> instructions s' ! k2 = instructions s0 ! k2))))"
proof -
  let ?s = "s0\<lparr>cycle := c, metrics := m\<rparr>"
  let ?sts = "reservation_stations s0" and ?sts1 = "reservation_stations s1"
  from bind_inv_reachable [OF assms(2)] have inv: "bind_inv ?s"
    by (simp add: bind_inv_cycle_metrics)
  from stamp_ticks [OF assms(2) stamp_inv_init [OF assms(1)]] have sinv: "stamp_inv s0" .
  have sel: "reservation_stations ?s = reservation_stations s0"
    "register_file ?s = register_file s0" "instructions ?s = instructions s0"
    "cycle ?s = c" "metrics ?s = m" by simp_all
  from write_back_arbitration [OF inv assms(3) assms(4), unfolded sel]
  obtain r k where r: "r < length ?sts" and nm: "name (?sts ! r) = n"
    and k: "instruction (?sts ! r) = Some k"
    and core: "map core ?sts1 = map core ?sts"
    and c1: "cdb s' = \<lparr>cdb_reservation_station = Some n, cdb_value = v, cdb_busy = Some True\<rparr>"
    and c2: "metrics s' = m\<lparr>completed_instructions := completed_instructions m + 1\<rparr>"
    and c3: "instructions s' = (instructions s0)
              [k := (instructions s0 ! k)\<lparr>execute_complete_cycle := Some c,
                                           write_result_cycle := Some c\<rparr>]"
    and c4: "reservation_stations s' ! r = clear (?sts1 ! r)"
    and c5: "\<forall>i < length ?sts. i \<noteq> r \<longrightarrow>
               reservation_stations s' ! i = update_station_from_cdb n v (?sts1 ! i)"
    and c6: "if op_rs (?sts ! r) \<in> {Some ADD, Some SUB, Some MUL, Some DIV, Some LOAD}
             then \<exists>d. get_register_index (dest_rs (?sts ! r)) = Inr d \<and>
                    d < length (registers (register_file s0)) \<and>
                    d < length (status (register_file s0)) \<and>
                    registers (register_file s') = (registers (register_file s0))[d := v] \<and>
                    status (register_file s') =
                      (if status (register_file s0) ! d = Some n
                       then (status (register_file s0))[d := None]
                       else status (register_file s0))
             else register_file s' = register_file s0"
    and c7': "\<forall>n2 v2. (n2, v2) \<in> set rest \<longrightarrow>
              (\<exists>r2 < length ?sts. r2 \<noteq> r \<and>
                 name (?sts ! r2) = n2 \<and>
                 executing (?sts ! r2) \<and>
                 reservation_stations s' ! r2 = ?sts1 ! r2 \<and>
                 busy (?sts1 ! r2) \<and>
                 \<not> executing (?sts1 ! r2) \<and>
                 qj (?sts1 ! r2) = None \<and>
                 qk (?sts1 ! r2) = None)"
    by (elim exE conjE) (rule that)
  from c7' have c7: "\<And>n2 v2. (n2, v2) \<in> set rest \<Longrightarrow>
               \<exists>r2 < length ?sts. r2 \<noteq> r \<and> name (?sts ! r2) = n2 \<and>
                  reservation_stations s' ! r2 = ?sts1 ! r2 \<and> busy (?sts1 ! r2)"
    by blast
  have d6: "if op_rs (?sts ! r) \<in> {Some ADD, Some SUB, Some MUL, Some DIV, Some LOAD}
             then \<exists>d. get_register_index (dest_rs (?sts ! r)) = Inr d \<and>
                    d < length (registers (register_file s0)) \<and>
                    registers (register_file s') = (registers (register_file s0))[d := v] \<and>
                    status (register_file s') =
                      (if status (register_file s0) ! d = Some n
                       then (status (register_file s0))[d := None]
                       else status (register_file s0))
             else register_file s' = register_file s0"
  proof (cases "op_rs (?sts ! r) \<in> {Some ADD, Some SUB, Some MUL, Some DIV, Some LOAD}")
    case True
    with c6 obtain d where "get_register_index (dest_rs (?sts ! r)) = Inr d \<and>
                    d < length (registers (register_file s0)) \<and>
                    registers (register_file s') = (registers (register_file s0))[d := v] \<and>
                    status (register_file s') =
                      (if status (register_file s0) ! d = Some n
                       then (status (register_file s0))[d := None]
                       else status (register_file s0))"
      by (auto simp del: insert_iff)
    then have "\<exists>d. get_register_index (dest_rs (?sts ! r)) = Inr d \<and>
                    d < length (registers (register_file s0)) \<and>
                    registers (register_file s') = (registers (register_file s0))[d := v] \<and>
                    status (register_file s') =
                      (if status (register_file s0) ! d = Some n
                       then (status (register_file s0))[d := None]
                       else status (register_file s0))" by (rule exI)
    with True show ?thesis by (simp only: if_True)
  next
    case False
    with c6 have "register_file s' = register_file s0" by (simp only: if_False)
    with False show ?thesis by (simp only: if_False)
  qed
  have d5: "reservation_stations s' ! i =
                 (?sts1 ! i)
                   \<lparr>qj := (if qj (?sts1 ! i) = Some n then None else qj (?sts1 ! i)),
                    vj := (if qj (?sts1 ! i) = Some n then v else vj (?sts1 ! i)),
                    qk := (if qk (?sts1 ! i) = Some n then None else qk (?sts1 ! i)),
                    vk := (if qk (?sts1 ! i) = Some n then v else vk (?sts1 ! i))\<rparr>"
    if "i < length ?sts" "i \<noteq> r" for i
    using c5 that by (simp only: update_station_from_cdb_explicit) blast
  have d7: "\<exists>r2 < length ?sts. r2 \<noteq> r \<and> name (?sts ! r2) = n2 \<and>
              reservation_stations s' ! r2 = ?sts1 ! r2 \<and>
              core (?sts1 ! r2) = core (?sts ! r2) \<and> busy (reservation_stations s' ! r2) \<and>
              (\<forall>k2. instruction (?sts ! r2) = Some k2 \<longrightarrow>
                 k2 \<noteq> k \<and> instructions s' ! k2 = instructions s0 ! k2)"
    if "(n2, v2) \<in> set rest" for n2 v2
  proof -
    from c7 [OF that] obtain r2 where r2: "r2 < length ?sts" "r2 \<noteq> r" "name (?sts ! r2) = n2"
      "reservation_stations s' ! r2 = ?sts1 ! r2" "busy (?sts1 ! r2)" by blast
    have "k2 \<noteq> k \<and> instructions s' ! k2 = instructions s0 ! k2"
      if h: "instruction (?sts ! r2) = Some k2" for k2
    proof -
      have "k2 \<noteq> k"
      proof
        assume "k2 = k"
        with h have "instruction (?sts ! r2) = Some k" by simp
        from stamp_inv_unique [OF sinv r2(1) r this k] r2(2) show False by simp
      qed
      with c3 show ?thesis by simp
    qed
    with r2 map_core_nth [OF core r2(1)] show ?thesis by (intro exI [of _ r2]) simp
  qed
  from c4 have d4: "\<not> busy (reservation_stations s' ! r)" by (simp add: clear_not_busy)
  from c2 have d2: "completed_instructions (metrics s') = completed_instructions m + 1" by simp
  show ?thesis
    apply (intro conjI)
      apply (rule c1)
     apply (rule d2)
    apply (rule exI [of _ r], rule exI [of _ k])
    apply (intro conjI allI impI)
    using r nm k c3 d6 c4 d4 d5 d7 apply blast+
    done
qed

theorem write_back_one_completion_witness:
  "\<exists>s0 s1 s'.
     list_all fresh prog_race \<and>
     ticks 6 (Simulator_init regs0 prog_race) = Inr s0 \<and>
     FunctionalUnits_tick (s0\<lparr>cycle := 7, metrics := metrics s0, cdb := CommonDataBus_clear\<rparr>) =
       Inr (s1, [(''ALU3'', Some 12), (''STORE1'', None)]) \<and>
     write_back (s0\<lparr>cycle := 7, metrics := metrics s0\<rparr>) = Inr s' \<and>
     cdb s' = \<lparr>cdb_reservation_station = Some ''ALU3'', cdb_value = Some 12,
               cdb_busy = Some True\<rparr> \<and>
     completed_instructions (metrics s') = completed_instructions (metrics s0) + 1 \<and>
     (\<exists>r2 < length (reservation_stations s0).
        name (reservation_stations s0 ! r2) = ''STORE1'' \<and>
        reservation_stations s' ! r2 = reservation_stations s1 ! r2 \<and>
        busy (reservation_stations s' ! r2))"
proof -
  have f: "list_all fresh prog_race"
    by (simp add: prog_race_def fresh_def Instruction_init_def)
  have "case ticks 6 (Simulator_init regs0 prog_race) of
          Inr s0 \<Rightarrow>
            (case FunctionalUnits_tick
                    (s0\<lparr>cycle := 7, metrics := metrics s0, cdb := CommonDataBus_clear\<rparr>) of
               Inr (s1, results) \<Rightarrow>
                 results = [(''ALU3'', Some 12), (''STORE1'', None)] \<and>
                 (case write_back (s0\<lparr>cycle := 7, metrics := metrics s0\<rparr>) of
                    Inr s' \<Rightarrow> True | Inl _ \<Rightarrow> False)
             | Inl _ \<Rightarrow> False)
        | Inl _ \<Rightarrow> False"
    by code_simp
  then obtain s0 s1 s' where s: "ticks 6 (Simulator_init regs0 prog_race) = Inr s0"
    and h1: "FunctionalUnits_tick
               (s0\<lparr>cycle := 7, metrics := metrics s0, cdb := CommonDataBus_clear\<rparr>) =
               Inr (s1, [(''ALU3'', Some 12), (''STORE1'', None)])"
    and h2: "write_back (s0\<lparr>cycle := 7, metrics := metrics s0\<rparr>) = Inr s'"
    by (auto split: sum.splits prod.splits)
  from write_back_one_completion [OF f s h1 h2]
  have a: "cdb s' = \<lparr>cdb_reservation_station = Some ''ALU3'', cdb_value = Some 12,
                     cdb_busy = Some True\<rparr>"
    "completed_instructions (metrics s') = completed_instructions (metrics s0) + 1"
    and b: "\<exists>r2 < length (reservation_stations s0).
        name (reservation_stations s0 ! r2) = ''STORE1'' \<and>
        reservation_stations s' ! r2 = reservation_stations s1 ! r2 \<and>
        busy (reservation_stations s' ! r2)"
    by simp_all blast
  with f s h1 h2 show ?thesis by blast
qed

subsection \<open>Busy stations can be written back\<close>

lemma get_register_index_bound: "get_register_index x = Inr d \<Longrightarrow> d < NUM_REGISTERS"
  by (cases x) (auto split: if_splits sum.splits)

lemma held_okI:
  assumes "busy st \<Longrightarrow> instruction st \<noteq> None"
    and "busy st \<Longrightarrow> op_rs st \<in> {Some ADD, Some SUB, Some MUL, Some DIV, Some LOAD} \<Longrightarrow>
           \<exists>d. get_register_index (dest_rs st) = Inr d"
  shows "held_ok (ident st)"
  using assms by (auto simp: held_ok_def ident_def split: sum.splits)

lemma held_okD:
  assumes "held_ok (ident st)" and "busy st"
  shows "\<exists>k. instruction st = Some k"
    and "op_rs st \<in> {Some ADD, Some SUB, Some MUL, Some DIV, Some LOAD} \<Longrightarrow>
           \<exists>d. get_register_index (dest_rs st) = Inr d"
  using assms by (auto simp: held_ok_def ident_def split: sum.splits)

lemma held_ok_idle: "\<not> busy st \<Longrightarrow> held_ok (ident st)"
  by (simp add: held_ok_def ident_def)

lemma wf_invI:
  assumes "length (registers (register_file s)) = NUM_REGISTERS"
    and "length (status (register_file s)) = NUM_REGISTERS"
    and "list_all held_ok (map ident (reservation_stations s))"
  shows "wf_inv s"
  unfolding wf_inv_def using assms by blast

lemma wf_inv_lengths:
  "wf_inv s \<Longrightarrow> length (registers (register_file s)) = NUM_REGISTERS \<and>
     length (status (register_file s)) = NUM_REGISTERS"
  unfolding wf_inv_def by blast

lemma wf_inv_stations: "wf_inv s \<Longrightarrow> list_all held_ok (map ident (reservation_stations s))"
  unfolding wf_inv_def by blast

lemma wf_inv_held:
  assumes "wf_inv s" and "i < length (reservation_stations s)"
  shows "held_ok (ident (reservation_stations s ! i))"
proof -
  from wf_inv_stations [OF assms(1)] assms(2)
  have "held_ok (map ident (reservation_stations s) ! i)"
    by (simp only: list_all_length length_map)
  with assms(2) show ?thesis by simp
qed

lemma wf_inv_frame:
  assumes "wf_inv s"
    and "map ident (reservation_stations s') = map ident (reservation_stations s)"
    and "length (registers (register_file s')) = length (registers (register_file s))"
    and "length (status (register_file s')) = length (status (register_file s))"
  shows "wf_inv s'"
  using assms unfolding wf_inv_def by simp

lemma list_all_updateI: "list_all P xs \<Longrightarrow> P x \<Longrightarrow> list_all P (xs[r := x])"
proof -
  assume a: "list_all P xs" and b: "P x"
  have "set (xs[r := x]) \<subseteq> insert x (set xs)" by (rule set_update_subset_insert)
  with a b show ?thesis by (auto simp: list_all_iff)
qed

lemma wf_inv_update:
  assumes "wf_inv s"
    and "map ident (reservation_stations s') = (map ident (reservation_stations s))[r := x]"
    and "held_ok x"
    and "length (registers (register_file s')) = length (registers (register_file s))"
    and "length (status (register_file s')) = length (status (register_file s))"
  shows "wf_inv s'"
proof (rule wf_invI)
  from wf_inv_lengths [OF assms(1)] assms(4,5)
  show "length (registers (register_file s')) = NUM_REGISTERS"
    "length (status (register_file s')) = NUM_REGISTERS" by simp_all
  from list_all_updateI [OF wf_inv_stations [OF assms(1)] assms(3)] assms(2)
  show "list_all held_ok (map ident (reservation_stations s'))" by simp
qed

lemma wf_inv_cdb: "wf_inv (s\<lparr>cdb := c\<rparr>) = wf_inv s"
  by (simp add: wf_inv_def)

lemma wf_inv_cycle_metrics: "wf_inv (s\<lparr>cycle := c, metrics := m\<rparr>) = wf_inv s"
  by (simp add: wf_inv_def)

lemma wf_units_tick:
  assumes "units_tick us s = Inr (s1, res)" and "wf_inv s"
  shows "wf_inv s1"
proof -
  from units_tick_frame [OF assms(1)]
  have a: "map core (reservation_stations s1) = map core (reservation_stations s)"
    and b: "register_file s1 = register_file s" by simp_all
  from wf_inv_frame [OF assms(2) map_core_ident [OF a]] b show ?thesis by simp
qed

lemma wf_execute_station:
  assumes "execute_station r s = Inr s'" and "r < length (reservation_stations s)"
    and "wf_inv s"
  shows "wf_inv s'"
proof -
  from execute_station_effect [OF assms(1,2)]
  have a: "map ident (reservation_stations s') = map ident (reservation_stations s)"
    and b: "register_file s' = register_file s"
    by (auto simp: map_update_same)
  from wf_inv_frame [OF assms(3) a] b show ?thesis by simp
qed

lemma wf_execute_loop:
  "execute_loop rs s = Inr s' \<Longrightarrow> \<forall>r \<in> set rs. r < length (reservation_stations s) \<Longrightarrow>
     wf_inv s \<Longrightarrow> wf_inv s'"
proof (induction rs arbitrary: s)
  case Nil
  then show ?case by simp
next
  case (Cons r rs)
  from Cons.prems(1) obtain s1 where a: "execute_station r s = Inr s1"
    and b: "execute_loop rs s1 = Inr s'"
    by (auto split: sum.splits)
  from Cons.prems(2) have r: "r < length (reservation_stations s)" by simp
  from wf_execute_station [OF a r Cons.prems(3)] have inv1: "wf_inv s1" .
  from execute_station_length [OF a r] Cons.prems(2)
  have "\<forall>r \<in> set rs. r < length (reservation_stations s1)" by simp
  from Cons.IH [OF b this inv1] show ?case .
qed

lemma wf_execute:
  assumes "execute s = Inr s'" and "wf_inv s"
  shows "wf_inv s'"
  using assms wf_execute_loop [of "[0 ..< length (reservation_stations s)]" s s']
  by (simp add: execute_def)

lemma map_ident_update_from_cdb: "map ident (update_from_cdb sts n v) = map ident sts"
  by (simp add: update_from_cdb_def update_station_from_cdb_fields(1))

lemma wf_write_back_first:
  assumes w: "write_back_first n v s = Inr s'" and inv: "wf_inv s"
  shows "wf_inv s'"
proof (cases "get_station_by_name (reservation_stations s) n")
  case None
  from write_back_first_None [OF w None]
  have "reservation_stations s' = reservation_stations s" "register_file s' = register_file s"
    by simp_all
  with wf_inv_frame [OF inv, of s'] show ?thesis by simp
next
  case (Some r)
  let ?sts = "reservation_stations s"
  let ?u = "update_from_cdb ?sts n v"
  from write_back_first_Some [OF w Some]
  have sts': "reservation_stations s' = ?u[r := clear (?u ! r)]"
    and st: "if op_rs (?sts ! r) \<in> {Some ADD, Some SUB, Some MUL, Some DIV, Some LOAD}
             then \<exists>d. get_register_index (dest_rs (?sts ! r)) = Inr d \<and>
                    d < length (status (register_file s)) \<and>
                    status (register_file s') =
                      (if status (register_file s) ! d = Some n
                       then (status (register_file s))[d := None]
                       else status (register_file s))
             else register_file s' = register_file s"
    by blast+
  from write_back_first_registers [OF w Some]
  have rg: "if op_rs (?sts ! r) \<in> {Some ADD, Some SUB, Some MUL, Some DIV, Some LOAD}
            then \<exists>d. get_register_index (dest_rs (?sts ! r)) = Inr d \<and>
                   d < length (registers (register_file s)) \<and>
                   registers (register_file s') = (registers (register_file s))[d := v]
            else register_file s' = register_file s" by simp
  have l1: "length (registers (register_file s')) = length (registers (register_file s))"
    using rg by (auto split: if_splits simp del: insert_iff)
  have l2: "length (status (register_file s')) = length (status (register_file s))"
    using st by (auto split: if_splits simp del: insert_iff)
  have m: "map ident (reservation_stations s') = (map ident ?sts)[r := ident (clear (?u ! r))]"
    unfolding sts' by (simp add: map_update map_ident_update_from_cdb)
  have "held_ok (ident (clear (?u ! r)))" by (rule held_ok_idle) (simp add: clear_not_busy)
  from wf_inv_update [OF inv m this l1 l2] show ?thesis .
qed

lemma wf_write_back:
  assumes "write_back s = Inr s'" and "wf_inv s"
  shows "wf_inv s'"
proof -
  from assms(2) have c: "wf_inv (s\<lparr>cdb := CommonDataBus_clear\<rparr>)" by (simp add: wf_inv_cdb)
  from write_back_cases [OF assms(1)] obtain s1 res where
    t: "units_tick [0 ..< length (functional_units s)] (s\<lparr>cdb := CommonDataBus_clear\<rparr>) = Inr (s1, res)"
    and f: "(res = [] \<and> s' = s1) \<or> (\<exists>n v rest. res = (n, v) # rest \<and> write_back_first n v s1 = Inr s')"
    by blast
  from wf_units_tick [OF t c] have s1: "wf_inv s1" .
  from f show ?thesis
  proof
    assume "res = [] \<and> s' = s1"
    with s1 show ?thesis by simp
  next
    assume "\<exists>n v rest. res = (n, v) # rest \<and> write_back_first n v s1 = Inr s'"
    then obtain n v where "write_back_first n v s1 = Inr s'" by blast
    from wf_write_back_first [OF this s1] show ?thesis .
  qed
qed

lemma issue_operands_registers:
  assumes "issue_operands i rf rs = Inr (rs', rf')"
  shows "registers rf' = registers rf"
proof (cases "op i \<in> {ADD, SUB, MUL, DIV}")
  case True
  with assms obtain rs1 rs2 where
    a: "capture_j rf (src1 i) (rs\<lparr>dest_rs := dest i\<rparr>) = Inr rs1"
    and b: "capture_k rf (src2 i) rs1 = Inr rs2"
    and c: "set_status rf (dest i) (Some (name rs2)) = Inr rf'" and d: "rs' = rs2"
    by (auto simp: issue_operands_def split: sum.splits)
  from set_status_Inr [OF c] show ?thesis by auto
next
  case False
  note na = False
  show ?thesis
  proof (cases "op i = LOAD")
    case True
    with assms na obtain rs1 where
      a: "capture_j rf (base i) (rs\<lparr>dest_rs := dest i\<rparr>) = Inr rs1"
      and c: "set_status rf (dest i) (Some (name rs1)) = Inr rf'"
      and d: "rs' = rs1\<lparr>offset_rs := offset i\<rparr>"
      by (auto simp: issue_operands_def split: sum.splits)
    from set_status_Inr [OF c] show ?thesis by auto
  next
    case False
    with na have "op i = STORE" by (cases "op i") auto
    with issue_operands_effect [OF assms] show ?thesis by simp
  qed
qed

lemma issue_registers:
  assumes "issue s = Inr (s', b)"
  shows "registers (register_file s') = registers (register_file s)"
proof (cases "pc s \<ge> length (instructions s)")
  case True
  with assms show ?thesis by (simp add: issue_def)
next
  case False
  note pcl = False
  let ?i = "instructions s ! pc s"
  show ?thesis
  proof (cases "get_available_station (reservation_stations s) (op ?i)")
    case None
    with assms pcl show ?thesis by (auto simp: issue_def)
  next
    case (Some r)
    let ?rs = "(reservation_stations s ! r)
                 \<lparr>busy := True, op_rs := Some (op ?i), instruction := Some (pc s)\<rparr>"
    from assms pcl Some obtain rs' rf' where
      io: "issue_operands ?i (register_file s) ?rs = Inr (rs', rf')"
      and s': "register_file s' = rf'"
      by (auto simp: issue_def Let_def split: sum.splits)
    from issue_operands_registers [OF io] s' show ?thesis by simp
  qed
qed

lemma wf_issue:
  assumes i: "issue s = Inr (s', b)" and inv: "wf_inv s"
  shows "wf_inv s'"
proof (cases b)
  case False
  with issue_effect [OF i]
  have "reservation_stations s' = reservation_stations s" "register_file s' = register_file s"
    by auto
  with wf_inv_frame [OF inv, of s'] show ?thesis by simp
next
  case True
  let ?sts = "reservation_stations s" and ?i = "instructions s ! pc s"
  from issue_effect [OF i] True obtain r rs' where
    sts': "reservation_stations s' = ?sts[r := rs']"
    and rs': "instruction rs' = Some (pc s)" "op_rs rs' = Some (op ?i)"
    and rf: "if op ?i = STORE then register_file s' = register_file s
             else dest_rs rs' = dest ?i \<and>
                  (\<exists>d. get_register_index (dest ?i) = Inr d \<and>
                       d < length (status (register_file s)) \<and>
                       status (register_file s') = (status (register_file s))
                          [d := Some (name (?sts ! r))])"
    by auto
  have h: "held_ok (ident rs')"
  proof (rule held_okI)
    from rs'(1) show "instruction rs' \<noteq> None" by simp
  next
    assume "op_rs rs' \<in> {Some ADD, Some SUB, Some MUL, Some DIV, Some LOAD}"
    with rs'(2) have "op ?i \<noteq> STORE" by auto
    with rf show "\<exists>d. get_register_index (dest_rs rs') = Inr d" by auto
  qed
  have l2: "length (status (register_file s')) = length (status (register_file s))"
    using rf by (auto split: if_splits)
  from issue_registers [OF i]
  have l1: "length (registers (register_file s')) = length (registers (register_file s))"
    by simp
  have m: "map ident (reservation_stations s') = (map ident ?sts)[r := ident rs']"
    unfolding sts' by (simp add: map_update)
  from wf_inv_update [OF inv m h l1 l2] show ?thesis .
qed

lemma wf_tick:
  assumes "tick s = Inr (s', b)" and "wf_inv s"
  shows "wf_inv s'"
proof -
  from tick_phases [OF assms(1)] obtain m s1 s2 b' where
    w: "write_back (s\<lparr>cycle := cycle s + 1, metrics := m\<rparr>) = Inr s1"
    and e: "execute s1 = Inr s2" and i: "issue s2 = Inr (s', b')"
    by blast
  from assms(2) have "wf_inv (s\<lparr>cycle := cycle s + 1, metrics := m\<rparr>)"
    by (simp add: wf_inv_cycle_metrics)
  from wf_issue [OF i wf_execute [OF e wf_write_back [OF w this]]] show ?thesis .
qed

lemma wf_ticks: "ticks n s = Inr s' \<Longrightarrow> wf_inv s \<Longrightarrow> wf_inv s'"
proof (induction n arbitrary: s)
  case 0
  then show ?case by simp
next
  case (Suc n)
  from Suc.prems(1) obtain s1 b where a: "tick s = Inr (s1, b)" and c: "ticks n s1 = Inr s'"
    by (auto split: sum.splits)
  from Suc.IH [OF c wf_tick [OF a Suc.prems(2)]] show ?case .
qed

lemma wf_inv_init:
  assumes "length regs + 1 = NUM_REGISTERS"
  shows "wf_inv (Simulator_init regs prog)"
proof (rule wf_invI)
  from assms show "length (registers (register_file (Simulator_init regs prog))) = NUM_REGISTERS"
    by (simp add: Simulator_init_def RegisterFile_init_def)
  show "length (status (register_file (Simulator_init regs prog))) = NUM_REGISTERS"
    by (simp add: Simulator_init_def RegisterFile_init_def)
  have "held_ok (ident st)" if "st \<in> set (reservation_stations (Simulator_init regs prog))" for st
  proof -
    from that obtain i where "i < length (reservation_stations (Simulator_init regs prog))"
      "st = reservation_stations (Simulator_init regs prog) ! i"
      by (auto simp: in_set_conv_nth)
    with init_station [of i regs prog] show ?thesis by (simp add: held_ok_idle)
  qed
  then show "list_all held_ok (map ident (reservation_stations (Simulator_init regs prog)))"
    by (simp add: list_all_iff)
qed

lemma wf_inv_reachable:
  "length regs + 1 = NUM_REGISTERS \<Longrightarrow> ticks n (Simulator_init regs prog) = Inr s \<Longrightarrow> wf_inv s"
  by (rule wf_ticks [OF _ wf_inv_init])

subsection \<open>The completions of one cycle, unit by unit\<close>

lemma FunctionalUnit_tick_other:
  assumes "FunctionalUnit_tick w s = Inr (s1, res)" and "x \<noteq> w"
  shows "functional_units s1 ! x = functional_units s ! x"
  using FunctionalUnit_tick_cases [OF assms(1)] assms(2) by auto

lemma FunctionalUnit_tick_stdout:
  assumes "FunctionalUnit_tick w s = Inr (s1, res)"
  shows "\<exists>out. stdout s1 = stdout s @ out"
  using assms
  by (auto simp: FunctionalUnit_tick_def Let_def
           split: if_splits option.splits sum.splits prod.splits)

lemma FunctionalUnit_tick_waiting:
  assumes "FunctionalUnit_tick w s = Inr (s1, res)"
    and "\<not> busy_fu (functional_units s ! w) \<or> 1 < cycles_left (functional_units s ! w)"
  shows "res = None \<and> stdout s1 = stdout s"
  using assms
  by (auto simp: FunctionalUnit_tick_def Let_def
           split: if_splits option.splits sum.splits prod.splits)

lemma units_tick_other:
  "units_tick us s = Inr (s1, res) \<Longrightarrow> u \<notin> set us \<Longrightarrow>
     functional_units s1 ! u = functional_units s ! u \<and> (\<exists>out. stdout s1 = stdout s @ out)"
proof (induction us arbitrary: s s1 res)
  case Nil
  then show ?case by simp
next
  case (Cons w us)
  from Cons.prems(1) obtain sa ra rb where a: "FunctionalUnit_tick w s = Inr (sa, ra)"
    and b: "units_tick us sa = Inr (s1, rb)"
    by (auto split: sum.splits prod.splits)
  from Cons.prems(2) have ne: "u \<noteq> w" "u \<notin> set us" by simp_all
  from FunctionalUnit_tick_other [OF a ne(1)] FunctionalUnit_tick_stdout [OF a]
    Cons.IH [OF b ne(2)]
  show ?case by auto
qed

lemma units_tick_waiting:
  "units_tick us s = Inr (s1, res) \<Longrightarrow> distinct us \<Longrightarrow>
     \<forall>w \<in> set us. \<not> busy_fu (functional_units s ! w) \<or> 1 < cycles_left (functional_units s ! w) \<Longrightarrow>
     res = [] \<and> stdout s1 = stdout s"
proof (induction us arbitrary: s s1 res)
  case Nil
  then show ?case by simp
next
  case (Cons w us)
  from Cons.prems(1) obtain sa ra rb where a: "FunctionalUnit_tick w s = Inr (sa, ra)"
    and b: "units_tick us sa = Inr (s1, rb)"
    and res: "res = (case ra of None \<Rightarrow> rb | Some x \<Rightarrow> x # rb)"
    by (auto split: sum.splits prod.splits)
  from Cons.prems(3)
  have "\<not> busy_fu (functional_units s ! w) \<or> 1 < cycles_left (functional_units s ! w)" by simp
  from FunctionalUnit_tick_waiting [OF a this] have ra: "ra = None" "stdout sa = stdout s"
    by simp_all
  from Cons.prems(2) have d: "distinct us" "w \<notin> set us" by simp_all
  have "\<forall>x \<in> set us. \<not> busy_fu (functional_units sa ! x) \<or>
          1 < cycles_left (functional_units sa ! x)"
  proof
    fix x assume x: "x \<in> set us"
    with d(2) have "x \<noteq> w" by auto
    from FunctionalUnit_tick_other [OF a this] Cons.prems(3) x
    show "\<not> busy_fu (functional_units sa ! x) \<or> 1 < cycles_left (functional_units sa ! x)"
      by simp
  qed
  from Cons.IH [OF b d(1) this] ra res show ?case by simp
qed

lemma units_tick_append:
  "units_tick (a @ b) s =
     (case units_tick a s of
        Inl e \<Rightarrow> Inl e
      | Inr (s1, r1) \<Rightarrow>
          (case units_tick b s1 of
             Inl e \<Rightarrow> Inl e
           | Inr (s2, r2) \<Rightarrow> Inr (s2, r1 @ r2)))"
  by (induction a arbitrary: s) (auto split: sum.splits prod.splits option.splits)

lemma div_unit_tick:
  assumes "busy_fu (functional_units t ! u)"
    and "fu_cls (functional_units t ! u) = MulDiv"
    and "reservation_station (functional_units t ! u) = Some r"
    and "cycles_left (functional_units t ! u) \<le> 1"
    and "op_rs (reservation_stations t ! r) = Some DIV"
    and "vk (reservation_stations t ! r) = Some 0"
  shows "\<exists>t1. FunctionalUnit_tick u t =
                 Inr (t1, Some (name (reservation_stations t ! r), Some 0)) \<and>
              stdout t1 = stdout t @
                 [Warn_division_by_zero (instruction (reservation_stations t ! r))]"
  using assms by (simp add: FunctionalUnit_tick_def Let_def)

text \<open>
  A unit of class \<open>MulDiv\<close> that finishes a division whose second operand is 0 hands the
  completion \<open>(tag, 0)\<close> to write-back and prints the warning, whatever the other units
  do; if no unit before it in the traversal finishes in the same cycle, its completion is
  the first.
\<close>

lemma div_completion:
  assumes u: "u < length (functional_units s)"
    and r: "r < length (reservation_stations s)"
    and fu: "busy_fu (functional_units s ! u)" "fu_cls (functional_units s ! u) = MulDiv"
      "reservation_station (functional_units s ! u) = Some r"
      "cycles_left (functional_units s ! u) \<le> 1"
    and st: "op_rs (reservation_stations s ! r) = Some DIV"
      "vk (reservation_stations s ! r) = Some 0"
    and tk: "FunctionalUnits_tick s = Inr (s1, results)"
  shows "\<exists>pre post out1 out2.
           results = pre @ (name (reservation_stations s ! r), Some 0) # post \<and>
           stdout s1 = stdout s @ out1 @
             Warn_division_by_zero (instruction (reservation_stations s ! r)) # out2 \<and>
           ((\<forall>w < u. \<not> busy_fu (functional_units s ! w) \<or>
                      1 < cycles_left (functional_units s ! w)) \<longrightarrow> pre = [] \<and> out1 = [])"
proof -
  let ?L = "length (functional_units s)"
  let ?n = "name (reservation_stations s ! r)"
  let ?W = "Warn_division_by_zero (instruction (reservation_stations s ! r))"
  from u have split: "[0 ..< ?L] = [0 ..< u] @ [u] @ [Suc u ..< ?L]"
    by (metis (no_types) Suc_leI append_Cons append_Nil le_add_diff_inverse less_imp_le_nat
        upt_add_eq_append upt_conv_Cons zero_le)
  from tk have "units_tick ([0 ..< u] @ [u] @ [Suc u ..< ?L]) s = Inr (s1, results)"
    by (simp only: FunctionalUnits_tick_def split)
  then obtain sa ra sm rm where a: "units_tick [0 ..< u] s = Inr (sa, ra)"
    and m: "units_tick ([u] @ [Suc u ..< ?L]) sa = Inr (sm, rm)"
    and e1: "s1 = sm" "results = ra @ rm"
    by (simp only: units_tick_append [of "[0 ..< u]"])
       (auto split: sum.splits prod.splits)
  from m obtain sb rb sc rc where b: "units_tick [u] sa = Inr (sb, rb)"
    and c: "units_tick [Suc u ..< ?L] sb = Inr (sc, rc)"
    and e2: "sm = sc" "rm = rb @ rc"
    by (simp only: units_tick_append [of "[u]"])
       (auto split: sum.splits prod.splits)
  have "u \<notin> set [0 ..< u]" by simp
  from units_tick_other [OF a this] obtain out1 where
    fa: "functional_units sa ! u = functional_units s ! u"
    and oa: "stdout sa = stdout s @ out1" by blast
  from units_tick_frame [OF a]
  have "map core (reservation_stations sa) = map core (reservation_stations s)" by simp
  from core_fields [OF map_core_nth [OF this r]]
  have sta: "name (reservation_stations sa ! r) = ?n"
    "op_rs (reservation_stations sa ! r) = op_rs (reservation_stations s ! r)"
    "vk (reservation_stations sa ! r) = vk (reservation_stations s ! r)"
    "instruction (reservation_stations sa ! r) = instruction (reservation_stations s ! r)"
    by simp_all
  from div_unit_tick [of sa u r] fa fu sta st
  obtain t1 where t1: "FunctionalUnit_tick u sa = Inr (t1, Some (?n, Some 0))"
    and o1: "stdout t1 = stdout sa @ [?W]" by auto
  from b t1 have e3: "sb = t1" "rb = [(?n, Some 0)]" by simp_all
  have "\<exists>out. stdout sc = stdout sb @ out"
  proof (cases "u \<in> set [Suc u ..< ?L]")
    case True
    then show ?thesis by simp
  next
    case False
    from units_tick_other [OF c False] show ?thesis by blast
  qed
  then obtain out2 where oc: "stdout sc = stdout sb @ out2" by blast
  have res: "results = ra @ (?n, Some 0) # rc" using e1 e2 e3 by simp
  have out: "stdout s1 = stdout s @ out1 @ ?W # out2" using e1 e2 e3 oa o1 oc by simp
  have first: "ra = [] \<and> out1 = []"
    if "\<forall>w < u. \<not> busy_fu (functional_units s ! w) \<or> 1 < cycles_left (functional_units s ! w)"
  proof -
    from that have "\<forall>w \<in> set [0 ..< u]. \<not> busy_fu (functional_units s ! w) \<or>
                      1 < cycles_left (functional_units s ! w)" by simp
    from units_tick_waiting [OF a _ this] oa show ?thesis by simp
  qed
  from res out first show ?thesis by blast
qed

lemma write_back_first_succeeds:
  assumes "get_station_by_name (reservation_stations s) n = Some r"
    and "instruction (reservation_stations s ! r) = Some k"
    and "get_register_index (dest_rs (reservation_stations s ! r)) = Inr d"
    and "d < length (registers (register_file s))"
    and "d < length (status (register_file s))"
  shows "\<exists>s'. write_back_first n v s = Inr s'"
  using assms
  by (simp add: write_back_first_def Let_def RegisterFile_write_def get_status_def
        set_status_def)

end
